theory Spec2Isabelle
  imports Main "HOL-Library.Word" "HOL-Library.Sublist"
begin

unbundle bit_operations_syntax

section \<open>Common types\<close>

type_synonym byte = "8 word"
type_synonym uint32 = "32 word"
type_synonym size_t = "64 word"

section \<open>Decimal formatting (\<^verbatim>\<open>std::to_string\<close>, \<^verbatim>\<open>%d\<close>)\<close>

definition digit_char :: "nat \<Rightarrow> char" where
  "digit_char d = ''0123456789'' ! d"

fun dec_digits :: "nat \<Rightarrow> string" where
  "dec_digits n = (if n < 10 then [digit_char n] else dec_digits (n div 10) @ [digit_char (n mod 10)])"

declare dec_digits.simps [simp del]

definition to_string :: "int \<Rightarrow> string" where
  "to_string i = (if i < 0 then CHR ''-'' # dec_digits (nat (- i)) else dec_digits (nat i))"

section \<open>Key translation (\<^verbatim>\<open>TerminalView::SendKeyToTerminal\<close>)\<close>

text \<open>Virtual-key codes of the Windows headers.\<close>

definition VK_TAB :: uint32 where "VK_TAB = 0x09"
definition VK_ESCAPE :: uint32 where "VK_ESCAPE = 0x1B"
definition VK_PRIOR :: uint32 where "VK_PRIOR = 0x21"
definition VK_NEXT :: uint32 where "VK_NEXT = 0x22"
definition VK_END :: uint32 where "VK_END = 0x23"
definition VK_HOME :: uint32 where "VK_HOME = 0x24"
definition VK_LEFT :: uint32 where "VK_LEFT = 0x25"
definition VK_UP :: uint32 where "VK_UP = 0x26"
definition VK_RIGHT :: uint32 where "VK_RIGHT = 0x27"
definition VK_DOWN :: uint32 where "VK_DOWN = 0x28"
definition VK_INSERT :: uint32 where "VK_INSERT = 0x2D"
definition VK_DELETE :: uint32 where "VK_DELETE = 0x2E"
definition VK_F1 :: uint32 where "VK_F1 = 0x70"
definition VK_OEM_4 :: uint32 where "VK_OEM_4 = 0xDB"

definition ESC :: char where "ESC = CHR 0x1B"

text \<open>\<^verbatim>\<open>snprintf(buf, size, ...)\<close> keeps at most \<open>size - 1\<close> characters of the formatted
  text; \<^verbatim>\<open>strlen\<close> stops at the first NUL.\<close>

definition snprintf_trunc :: "nat \<Rightarrow> string \<Rightarrow> string" where
  "snprintf_trunc n s = take (n - 1) s"

definition strlen_prefix :: "string \<Rightarrow> string" where
  "strlen_prefix s = takeWhile (\<lambda>c. c \<noteq> CHR 0x00) s"

text \<open>The CSI sequence with a modifier parameter: \<^verbatim>\<open>"\x1b[1;%d<final>"\<close> in a 16-byte buffer.\<close>

definition modSeq :: "int \<Rightarrow> char \<Rightarrow> string" where
  "modSeq modParam final = snprintf_trunc 16 ([ESC, CHR ''['', CHR ''1'', CHR '';''] @ to_string modParam @ [final])"

text \<open>The function's result is the byte string handed to the keyboard callback, \<open>None\<close>
  when the callback is not invoked. The modifier state (\<^verbatim>\<open>GetKeyState\<close>) and the presence of
  the callback are inputs.\<close>

definition SendKeyToTerminal ::
  "bool \<Rightarrow> bool \<Rightarrow> bool \<Rightarrow> bool \<Rightarrow> uint32 \<Rightarrow> bool \<Rightarrow> string option" where
  "SendKeyToTerminal hasCallback ctrl alt shift vkey keyDown =
    (if \<not> keyDown \<or> \<not> hasCallback then None
     else if ctrl \<and> \<not> alt \<and> 0x41 \<le> vkey \<and> vkey \<le> 0x5A
       then Some [char_of (unat (vkey - 0x41 + 1))]
     else if ctrl \<and> \<not> alt \<and> vkey = VK_OEM_4 then Some [ESC]
     else if alt \<and> \<not> ctrl \<and> 0x41 \<le> vkey \<and> vkey \<le> 0x5A
       then Some [ESC, char_of (unat (if shift then vkey else vkey + 32))]
     else
       let modParam = (1::int) + (if shift then 1 else 0) + (if alt then 2 else 0) + (if ctrl then 4 else 0);
           hasModifier = (modParam > 1);
           csi = (\<lambda>final. if hasModifier then modSeq modParam final else [ESC, CHR ''['', final]);
           send = (\<lambda>seq. Some (strlen_prefix seq))
       in if vkey = VK_UP then send (csi CHR ''A'')
          else if vkey = VK_DOWN then send (csi CHR ''B'')
          else if vkey = VK_RIGHT then send (csi CHR ''C'')
          else if vkey = VK_LEFT then send (csi CHR ''D'')
          else if vkey = VK_HOME then send (csi CHR ''H'')
          else if vkey = VK_END then send (csi CHR ''F'')
          else if vkey = VK_INSERT then send (ESC # ''[2~'')
          else if vkey = VK_DELETE then send (ESC # ''[3~'')
          else if vkey = VK_PRIOR then send (ESC # ''[5~'')
          else if vkey = VK_NEXT then send (ESC # ''[6~'')
          else if vkey = VK_F1 then send (ESC # ''OP'')
          else if vkey = VK_F1 + 1 then send (ESC # ''OQ'')
          else if vkey = VK_F1 + 2 then send (ESC # ''OR'')
          else if vkey = VK_F1 + 3 then send (ESC # ''OS'')
          else if vkey = VK_F1 + 4 then send (ESC # ''[15~'')
          else if vkey = VK_F1 + 5 then send (ESC # ''[17~'')
          else if vkey = VK_F1 + 6 then send (ESC # ''[18~'')
          else if vkey = VK_F1 + 7 then send (ESC # ''[19~'')
          else if vkey = VK_F1 + 8 then send (ESC # ''[20~'')
          else if vkey = VK_F1 + 9 then send (ESC # ''[21~'')
          else if vkey = VK_F1 + 10 then send (ESC # ''[23~'')
          else if vkey = VK_F1 + 11 then send (ESC # ''[24~'')
          else if vkey = VK_ESCAPE then send [ESC]
          else if vkey = VK_TAB then (if shift then send (ESC # ''[Z'') else None)
          else None)"

text \<open>The arrow keys and the final byte the specification gives each of them.\<close>

datatype arrow = Up | Down | Right | Left

fun arrow_vkey :: "arrow \<Rightarrow> uint32" where
  "arrow_vkey Up = VK_UP"
| "arrow_vkey Down = VK_DOWN"
| "arrow_vkey Right = VK_RIGHT"
| "arrow_vkey Left = VK_LEFT"

fun arrow_final :: "arrow \<Rightarrow> char" where
  "arrow_final Up = CHR ''A''"
| "arrow_final Down = CHR ''B''"
| "arrow_final Right = CHR ''C''"
| "arrow_final Left = CHR ''D''"

definition spec_modifier :: "bool \<Rightarrow> bool \<Rightarrow> bool \<Rightarrow> nat" where
  "spec_modifier shift alt ctrl = 1 + (if shift then 1 else 0) + (if alt then 2 else 0) + (if ctrl then 4 else 0)"

section \<open>The cell grid (\<^verbatim>\<open>TerminalBuffer\<close>)\<close>

text \<open>C++ exceptions are values of \<open>exn\<close>; a function that can throw returns \<open>exn + 'a\<close>.\<close>

datatype exn = invalid_argument string | out_of_range string

record CellAttributes =
  attr_bold :: bool
  attr_italic :: bool
  attr_underline :: "2 word"
  attr_blink :: bool
  attr_reverse :: bool
  attr_strikethrough :: bool
  attr_conceal :: bool

record CellColor =
  col_r :: byte
  col_g :: byte
  col_b :: byte
  col_flags :: byte

definition FLAG_DEFAULT :: byte where "FLAG_DEFAULT = 0x01"
definition FLAG_INDEXED :: byte where "FLAG_INDEXED = 0x02"

definition CellColor_Default :: CellColor where
  "CellColor_Default = \<lparr>col_r = 0, col_g = 0, col_b = 0, col_flags = FLAG_DEFAULT\<rparr>"


text \<open>\<open>combining\<close> is the array \<^verbatim>\<open>uint32_t combining[3]\<close>.\<close>

record Cell =
  charCode :: uint32
  combining :: "uint32 list"
  fg :: CellColor
  bg :: CellColor
  attrs :: CellAttributes
  width :: byte

definition CellAttributes_default :: CellAttributes where
  "CellAttributes_default = \<lparr>attr_bold = False, attr_italic = False, attr_underline = 0,
     attr_blink = False, attr_reverse = False, attr_strikethrough = False, attr_conceal = False\<rparr>"

text \<open>A default-constructed cell, which is also what \<^verbatim>\<open>Cell::Clear\<close> resets a cell to and
  the value of the static \<^verbatim>\<open>s_emptyCell\<close>.\<close>

definition s_emptyCell :: Cell where
  "s_emptyCell = \<lparr>charCode = 0x20, combining = [0, 0, 0], fg = CellColor_Default,
     bg = CellColor_Default, attrs = CellAttributes_default, width = 1\<rparr>"

definition Cell_Clear :: "Cell \<Rightarrow> Cell" where
  "Cell_Clear c = c\<lparr>charCode := 0x20, combining := [0, 0, 0], fg := CellColor_Default,
     bg := CellColor_Default, attrs := CellAttributes_default, width := 1\<rparr>"

type_synonym Row = "Cell list"

record TerminalBufferConfig =
  cfg_rows :: int
  cfg_cols :: int
  cfg_scrollbackLines :: nat

text \<open>\<open>m_scrollback\<close> is the deque, its head the front (the most recent line).\<close>

record TerminalBuffer =
  m_rows :: int
  m_cols :: int
  m_maxScrollback :: nat
  m_screen :: "Row list"
  m_scrollback :: "Row list"
  m_dirty :: "bool list"

text \<open>\<^verbatim>\<open>std::vector::resize(n)\<close> and \<^verbatim>\<open>resize(n, v)\<close>: truncate, or pad with the given value
  (a default-constructed element when none is given).\<close>

definition vector_resize :: "nat \<Rightarrow> 'a \<Rightarrow> 'a list \<Rightarrow> 'a list" where
  "vector_resize n v xs = take n xs @ replicate (n - length xs) v"

definition std_clamp :: "int \<Rightarrow> int \<Rightarrow> int \<Rightarrow> int" where
  "std_clamp v lo hi = (if v < lo then lo else if hi < v then hi else v)"

definition CreateEmptyRow :: "TerminalBuffer \<Rightarrow> Row" where
  "CreateEmptyRow tb = map Cell_Clear (replicate (nat (m_cols tb)) s_emptyCell)"

function TrimScrollback_loop :: "nat \<Rightarrow> Row list \<Rightarrow> Row list" where
  "TrimScrollback_loop cap sb = (if length sb > cap then TrimScrollback_loop cap (butlast sb) else sb)"
  by pat_completeness auto
termination
  by (relation "measure (\<lambda>(cap, sb). length sb)") auto

declare TrimScrollback_loop.simps [simp del]

definition TrimScrollback :: "TerminalBuffer \<Rightarrow> TerminalBuffer" where
  "TrimScrollback tb = tb\<lparr>m_scrollback := TrimScrollback_loop (m_maxScrollback tb) (m_scrollback tb)\<rparr>"

definition TerminalBuffer_new :: "TerminalBufferConfig \<Rightarrow> exn + TerminalBuffer" where
  "TerminalBuffer_new config =
    (let tb0 = \<lparr>m_rows = cfg_rows config, m_cols = cfg_cols config,
                m_maxScrollback = cfg_scrollbackLines config,
                m_screen = [], m_scrollback = [], m_dirty = []\<rparr>
     in if m_rows tb0 \<le> 0 \<or> m_cols tb0 \<le> 0
        then Inl (invalid_argument ''Terminal dimensions must be positive'')
        else Inr (tb0\<lparr>m_screen := map (\<lambda>row. CreateEmptyRow tb0) (vector_resize (nat (m_rows tb0)) ([]::Row) []),
                      m_dirty := vector_resize (nat (m_rows tb0)) True []\<rparr>))"

subsection \<open>Dirty tracking\<close>

definition MarkDirty :: "TerminalBuffer \<Rightarrow> int \<Rightarrow> TerminalBuffer" where
  "MarkDirty tb row =
    (if row \<ge> 0 \<and> row < m_rows tb then tb\<lparr>m_dirty := (m_dirty tb)[nat row := True]\<rparr> else tb)"

function MarkDirtyRange_loop :: "bool list \<Rightarrow> int \<Rightarrow> int \<Rightarrow> bool list" where
  "MarkDirtyRange_loop d row endRow =
    (if row < endRow then MarkDirtyRange_loop (d[nat row := True]) (row + 1) endRow else d)"
  by pat_completeness auto
termination
  by (relation "measure (\<lambda>(d, row, endRow). nat (endRow - row))") auto

declare MarkDirtyRange_loop.simps [simp del]

definition MarkDirtyRange :: "TerminalBuffer \<Rightarrow> int \<Rightarrow> int \<Rightarrow> TerminalBuffer" where
  "MarkDirtyRange tb startRow endRow =
    tb\<lparr>m_dirty := MarkDirtyRange_loop (m_dirty tb) (max 0 startRow) (min (m_rows tb) endRow)\<rparr>"

definition MarkAllDirty :: "TerminalBuffer \<Rightarrow> TerminalBuffer" where
  "MarkAllDirty tb = tb\<lparr>m_dirty := map (\<lambda>d. True) (m_dirty tb)\<rparr>"


definition IsDirty :: "TerminalBuffer \<Rightarrow> int \<Rightarrow> bool" where
  "IsDirty tb row = (if row \<ge> 0 \<and> row < m_rows tb then m_dirty tb ! nat row else False)"

subsection \<open>Size management\<close>

text \<open>The two row loops of \<^verbatim>\<open>Resize\<close>: \<open>n\<close> is the number of iterations left.\<close>

fun Resize_push_rows :: "nat \<Rightarrow> Row \<Rightarrow> Row list \<Rightarrow> Row list" where
  "Resize_push_rows 0 e screen = screen"
| "Resize_push_rows (Suc n) e screen = Resize_push_rows n e (screen @ [e])"

fun Resize_evict_rows :: "nat \<Rightarrow> Row list \<Rightarrow> Row list \<Rightarrow> Row list \<times> Row list" where
  "Resize_evict_rows 0 screen sb = (screen, sb)"
| "Resize_evict_rows (Suc n) screen sb =
     (case screen of
        [] \<Rightarrow> Resize_evict_rows n screen sb
      | front # rest \<Rightarrow> Resize_evict_rows n rest (front # sb))"

definition Resize_rows :: "TerminalBuffer \<Rightarrow> int \<Rightarrow> TerminalBuffer" where
  "Resize_rows tb rows =
    (if rows \<noteq> m_rows tb then
       (if rows > m_rows tb
        then tb\<lparr>m_screen := Resize_push_rows (nat (rows - m_rows tb)) (CreateEmptyRow tb) (m_screen tb)\<rparr>
        else (case Resize_evict_rows (nat (m_rows tb - rows)) (m_screen tb) (m_scrollback tb) of
                (screen, sb) \<Rightarrow> TrimScrollback (tb\<lparr>m_screen := screen, m_scrollback := sb\<rparr>)))
       \<lparr>m_rows := rows\<rparr>
     else tb)"

definition Resize_cols :: "TerminalBuffer \<Rightarrow> int \<Rightarrow> TerminalBuffer" where
  "Resize_cols tb cols =
    (if cols \<noteq> m_cols tb then
       tb\<lparr>m_screen := map (\<lambda>row. if int (length row) < cols then vector_resize (nat cols) s_emptyCell row
                                   else if int (length row) > cols then vector_resize (nat cols) s_emptyCell row
                                   else row) (m_screen tb),
          m_cols := cols\<rparr>
     else tb)"

definition Resize :: "TerminalBuffer \<Rightarrow> int \<Rightarrow> int \<Rightarrow> TerminalBuffer" where
  "Resize tb rows cols =
    (if rows \<le> 0 \<or> cols \<le> 0 then tb
     else let tb1 = Resize_rows tb rows;
              tb2 = Resize_cols tb1 cols;
              tb3 = tb2\<lparr>m_dirty := vector_resize (nat (m_rows tb2)) True (m_dirty tb2)\<rparr>
          in MarkAllDirty tb3)"

subsection \<open>Cell access\<close>




definition store_cell :: "TerminalBuffer \<Rightarrow> int \<Rightarrow> int \<Rightarrow> Cell \<Rightarrow> TerminalBuffer" where
  "store_cell tb row col c =
    tb\<lparr>m_screen := (m_screen tb)[nat row := (m_screen tb ! nat row)[nat col := c]]\<rparr>"



definition SetChar :: "TerminalBuffer \<Rightarrow> int \<Rightarrow> int \<Rightarrow> uint32 \<Rightarrow> int \<Rightarrow> TerminalBuffer" where
  "SetChar tb row col code w =
    (if row \<ge> 0 \<and> row < m_rows tb \<and> col \<ge> 0 \<and> col < m_cols tb
     then let cell = m_screen tb ! nat row ! nat col;
              cell1 = cell\<lparr>charCode := code, width := word_of_int w, combining := [0, 0, 0]\<rparr>
          in MarkDirty (store_cell tb row col cell1) row
     else tb)"





subsection \<open>Scrolling\<close>

text \<open>The rows are moved with \<^verbatim>\<open>std::move\<close>; every moved-from row is assigned again before it
  is read, so the loops are modelled by value.\<close>

function Scroll_shift_up :: "Row list \<Rightarrow> int \<Rightarrow> int \<Rightarrow> Row list" where
  "Scroll_shift_up screen row bottom =
    (if row < bottom - 1
     then Scroll_shift_up (screen[nat row := screen ! nat (row + 1)]) (row + 1) bottom
     else screen)"
  by pat_completeness auto
termination
  by (relation "measure (\<lambda>(screen, row, bottom). nat (bottom - 1 - row))") auto

declare Scroll_shift_up.simps [simp del]

function Scroll_shift_down :: "Row list \<Rightarrow> int \<Rightarrow> int \<Rightarrow> Row list" where
  "Scroll_shift_down screen row topRow =
    (if row > topRow
     then Scroll_shift_down (screen[nat row := screen ! nat (row - 1)]) (row - 1) topRow
     else screen)"
  by pat_completeness auto
termination
  by (relation "measure (\<lambda>(screen, row, topRow). nat (row - topRow))") auto

declare Scroll_shift_down.simps [simp del]

function Scroll_up_loop :: "TerminalBuffer \<Rightarrow> int \<Rightarrow> int \<Rightarrow> int \<Rightarrow> int \<Rightarrow> TerminalBuffer" where
  "Scroll_up_loop tb i lines topRow bottom =
    (if i < lines \<and> topRow < bottom - 1 then
       let tb1 = (if topRow = 0 then tb\<lparr>m_scrollback := (m_screen tb ! nat topRow) # m_scrollback tb\<rparr> else tb);
           tb2 = tb1\<lparr>m_screen := Scroll_shift_up (m_screen tb1) topRow bottom\<rparr>;
           tb3 = tb2\<lparr>m_screen := (m_screen tb2)[nat (bottom - 1) := CreateEmptyRow tb2]\<rparr>
       in Scroll_up_loop tb3 (i + 1) lines topRow bottom
     else tb)"
  by pat_completeness auto
termination
  by (relation "measure (\<lambda>(tb, i, lines, topRow, bottom). nat (lines - i))") auto

declare Scroll_up_loop.simps [simp del]

function Scroll_down_loop :: "TerminalBuffer \<Rightarrow> int \<Rightarrow> int \<Rightarrow> int \<Rightarrow> int \<Rightarrow> TerminalBuffer" where
  "Scroll_down_loop tb i lines topRow bottom =
    (if i < lines \<and> topRow < bottom - 1 then
       let tb1 = tb\<lparr>m_screen := Scroll_shift_down (m_screen tb) (bottom - 1) topRow\<rparr>;
           tb2 = (if topRow = 0 \<and> m_scrollback tb1 \<noteq> []
                  then tb1\<lparr>m_screen := (m_screen tb1)[nat topRow := hd (m_scrollback tb1)],
                           m_scrollback := tl (m_scrollback tb1)\<rparr>
                  else tb1\<lparr>m_screen := (m_screen tb1)[nat topRow := CreateEmptyRow tb1]\<rparr>)
       in Scroll_down_loop tb2 (i + 1) lines topRow bottom
     else tb)"
  by pat_completeness auto
termination
  by (relation "measure (\<lambda>(tb, i, lines, topRow, bottom). nat (lines - i))") auto

declare Scroll_down_loop.simps [simp del]

definition Scroll :: "TerminalBuffer \<Rightarrow> int \<Rightarrow> int \<Rightarrow> int \<Rightarrow> TerminalBuffer" where
  "Scroll tb lines top0 bottom0 =
    (let bottom1 = (if bottom0 < 0 then m_rows tb else bottom0);
         topRow = std_clamp top0 0 (m_rows tb - 1);
         bottom = std_clamp bottom1 (topRow + 1) (m_rows tb)
     in if lines = 0 \<or> topRow \<ge> bottom - 1 then tb
        else let tb1 = (if lines > 0
                        then TrimScrollback (Scroll_up_loop tb 0 lines topRow bottom)
                        else Scroll_down_loop tb 0 (- lines) topRow bottom)
             in MarkDirtyRange tb1 topRow bottom)"

definition ScrollUp :: "TerminalBuffer \<Rightarrow> TerminalBuffer" where
  "ScrollUp tb = Scroll tb 1 0 (m_rows tb)"

definition ScrollDown :: "TerminalBuffer \<Rightarrow> TerminalBuffer" where
  "ScrollDown tb = Scroll tb (- 1) 0 (m_rows tb)"


subsection \<open>Text extraction\<close>

text \<open>The UTF-8 encoder that \<^verbatim>\<open>GetRowText\<close> writes out twice, for the code point of a cell
  and for each combining code point; \<open>ucast\<close> is the truncating \<^verbatim>\<open>static_cast<char>\<close>.\<close>

definition utf8_encode :: "uint32 \<Rightarrow> byte list" where
  "utf8_encode cp =
    (if cp < 0x80 then [ucast cp]
     else if cp < 0x800 then
       [ucast (0xC0 OR drop_bit 6 cp), ucast (0x80 OR (cp AND 0x3F))]
     else if cp < 0x10000 then
       [ucast (0xE0 OR drop_bit 12 cp), ucast (0x80 OR (drop_bit 6 cp AND 0x3F)),
        ucast (0x80 OR (cp AND 0x3F))]
     else
       [ucast (0xF0 OR drop_bit 18 cp), ucast (0x80 OR (drop_bit 12 cp AND 0x3F)),
        ucast (0x80 OR (drop_bit 6 cp AND 0x3F)), ucast (0x80 OR (cp AND 0x3F))])"

fun GetRowText_cells :: "Row \<Rightarrow> byte list \<Rightarrow> byte list" where
  "GetRowText_cells [] result = result"
| "GetRowText_cells (cell # cells) result =
    (if width cell = 0 then GetRowText_cells cells result
     else GetRowText_cells cells
            (result @ utf8_encode (charCode cell)
                    @ concat (map utf8_encode (takeWhile (\<lambda>comb. comb \<noteq> 0) (combining cell)))))"

function trim_trailing_spaces :: "byte list \<Rightarrow> byte list" where
  "trim_trailing_spaces result =
    (if result \<noteq> [] \<and> last result = 0x20 then trim_trailing_spaces (butlast result) else result)"
  by pat_completeness auto
termination
  by (relation "measure length") auto

declare trim_trailing_spaces.simps [simp del]

definition GetRowText :: "TerminalBuffer \<Rightarrow> int \<Rightarrow> byte list" where
  "GetRowText tb row =
    (if row < 0 \<or> row \<ge> m_rows tb then []
     else trim_trailing_spaces (GetRowText_cells (m_screen tb ! nat row) []))"

function GetRegionText_loop ::
  "TerminalBuffer \<Rightarrow> int \<Rightarrow> int \<Rightarrow> int \<Rightarrow> int \<Rightarrow> int \<Rightarrow> byte list \<Rightarrow> byte list" where
  "GetRegionText_loop tb startRow startCol endRow endCol row result =
    (if row \<le> endRow then
       let rowText = GetRowText tb row;
           colStart = (if row = startRow then startCol else 0);
           colEnd = (if row = endRow then endCol else m_cols tb);
           result1 = (if rowText \<noteq> [] then result @ rowText else result);
           result2 = (if row < endRow then result1 @ [0x0A] else result1)
       in GetRegionText_loop tb startRow startCol endRow endCol (row + 1) result2
     else result)"
  by pat_completeness auto
termination
  by (relation "measure (\<lambda>(tb, startRow, startCol, endRow, endCol, row, result). nat (endRow + 1 - row))") auto

declare GetRegionText_loop.simps [simp del]

definition GetRegionText :: "TerminalBuffer \<Rightarrow> int \<Rightarrow> int \<Rightarrow> int \<Rightarrow> int \<Rightarrow> byte list" where
  "GetRegionText tb startRow0 startCol endRow0 endCol =
    (let startRow = std_clamp startRow0 0 (m_rows tb - 1);
         endRow = std_clamp endRow0 0 (m_rows tb - 1)
     in GetRegionText_loop tb startRow startCol endRow endCol startRow [])"

text \<open>The reading of the specification: the text of whole rows, a newline between
  consecutive rows.\<close>

fun join_lines :: "byte list list \<Rightarrow> byte list" where
  "join_lines [] = []"
| "join_lines [l] = l"
| "join_lines (l # ls) = l @ [0x0A] @ join_lines ls"

definition whole_rows_text :: "TerminalBuffer \<Rightarrow> int \<Rightarrow> int \<Rightarrow> byte list" where
  "whole_rows_text tb startRow endRow =
    join_lines (map (GetRowText tb)
      [std_clamp startRow 0 (m_rows tb - 1) .. std_clamp endRow 0 (m_rows tb - 1)])"

text \<open>A 2x3 grid of empty cells with a scrollback cap of 10 lines, as the constructor
  builds it, and the same grid with rows holding the text \<open>ab\<close> and \<open>c\<close>.\<close>

definition grid_2x3 :: TerminalBuffer where
  "grid_2x3 = \<lparr>m_rows = 2, m_cols = 3, m_maxScrollback = 10,
                m_screen = [[s_emptyCell, s_emptyCell, s_emptyCell], [s_emptyCell, s_emptyCell, s_emptyCell]],
                m_scrollback = [], m_dirty = [True, True]\<rparr>"

definition grid_abc :: TerminalBuffer where
  "grid_abc = SetChar (SetChar (SetChar grid_2x3 0 0 0x61 1) 0 1 0x62 1) 1 0 0x63 1"

section \<open>The ring buffer (\<^verbatim>\<open>RingBuffer<char>\<close>)\<close>

text \<open>\<^verbatim>\<open>size_t\<close> is a 64-bit word: \<open>+\<close> and \<open>-\<close> wrap around. The storage \<open>m_buffer\<close> is a
  list of \<open>m_capacity\<close> bytes. The atomics are plain fields: the model is of one thread.\<close>

record RingBuffer =
  m_capacity :: size_t
  m_mask :: size_t
  m_buffer :: "byte list"
  m_head :: size_t
  m_tail :: size_t

definition NextPowerOfTwo :: "size_t \<Rightarrow> size_t" where
  "NextPowerOfTwo n =
    (if n = 0 then 1
     else let n1 = n - 1;
              n2 = n1 OR drop_bit 1 n1;
              n3 = n2 OR drop_bit 2 n2;
              n4 = n3 OR drop_bit 4 n3;
              n5 = n4 OR drop_bit 8 n4;
              n6 = n5 OR drop_bit 16 n5;
              n7 = n6 OR drop_bit 32 n6
          in n7 + 1)"

definition RingBuffer_new :: "size_t \<Rightarrow> RingBuffer" where
  "RingBuffer_new capacity =
    (let cap = NextPowerOfTwo capacity
     in \<lparr>m_capacity = cap, m_mask = cap - 1, m_buffer = replicate (unat cap) 0,
         m_head = 0, m_tail = 0\<rparr>)"

definition AvailableToRead :: "RingBuffer \<Rightarrow> size_t \<Rightarrow> size_t \<Rightarrow> size_t" where
  "AvailableToRead rb head tail = head - tail"

definition AvailableToWrite :: "RingBuffer \<Rightarrow> size_t \<Rightarrow> size_t \<Rightarrow> size_t" where
  "AvailableToWrite rb head tail = (m_capacity rb - 1) - (head - tail)"

text \<open>\<^verbatim>\<open>memcpy(&buf[off], src, n)\<close> with \<open>n = length src\<close>, and reading \<open>n\<close> bytes at
  \<^verbatim>\<open>&buf[off]\<close>. Both stay inside the storage whenever \<open>off + n\<close> is at most its length, which
  the chunk sizes guarantee when \<open>m_capacity\<close> is a power of two and the storage has
  \<open>m_capacity\<close> bytes (\<open>ring_write_nat\<close>, \<open>ring_read_nat\<close>); outside the storage the C++ is
  undefined and the lists computed here stand for nothing: \<open>Write_in_bounds\<close> below tells
  whether a call of \<^verbatim>\<open>Write\<close> stays inside.\<close>

definition memcpy_to :: "byte list \<Rightarrow> nat \<Rightarrow> byte list \<Rightarrow> byte list" where
  "memcpy_to buf off src = take off buf @ src @ drop (off + length src) buf"

definition memcpy_from :: "byte list \<Rightarrow> nat \<Rightarrow> nat \<Rightarrow> byte list" where
  "memcpy_from buf off n = take n (drop off buf)"

text \<open>\<open>Write rb data\<close> is \<^verbatim>\<open>Write(data, length)\<close> with \<open>length\<close> the number of bytes of
  \<open>data\<close>; it returns the buffer and the number of bytes accepted.\<close>

definition Write :: "RingBuffer \<Rightarrow> byte list \<Rightarrow> RingBuffer \<times> size_t" where
  "Write rb data =
    (let head = m_head rb;
         tail = m_tail rb;
         available = AvailableToWrite rb head tail;
         toWrite = min (word_of_nat (length data)) available
     in if toWrite = 0 then (rb, 0)
        else let headIndex = head AND m_mask rb;
                 firstChunk = min toWrite (m_capacity rb - headIndex);
                 secondChunk = toWrite - firstChunk;
                 buf1 = memcpy_to (m_buffer rb) (unat headIndex) (take (unat firstChunk) data);
                 buf2 = (if secondChunk > 0
                         then memcpy_to buf1 0 (take (unat secondChunk) (drop (unat firstChunk) data))
                         else buf1)
             in (rb\<lparr>m_buffer := buf2, m_head := head + toWrite\<rparr>, toWrite))"

text \<open>\<open>Read rb maxLength\<close> returns the buffer and the bytes copied out (their number is the
  function's return value); \<open>Peek\<close> copies the same bytes and leaves the buffer as it is.\<close>

definition Peek :: "RingBuffer \<Rightarrow> size_t \<Rightarrow> byte list" where
  "Peek rb maxLength =
    (let tail = m_tail rb;
         head = m_head rb;
         available = AvailableToRead rb head tail;
         toPeek = min maxLength available
     in if toPeek = 0 then []
        else let tailIndex = tail AND m_mask rb;
                 firstChunk = min toPeek (m_capacity rb - tailIndex);
                 secondChunk = toPeek - firstChunk
             in memcpy_from (m_buffer rb) (unat tailIndex) (unat firstChunk)
                @ (if secondChunk > 0 then memcpy_from (m_buffer rb) 0 (unat secondChunk) else []))"

definition Read :: "RingBuffer \<Rightarrow> size_t \<Rightarrow> RingBuffer \<times> byte list" where
  "Read rb maxLength =
    (let tail = m_tail rb;
         head = m_head rb;
         available = AvailableToRead rb head tail;
         toRead = min maxLength available
     in if toRead = 0 then (rb, [])
        else let tailIndex = tail AND m_mask rb;
                 firstChunk = min toRead (m_capacity rb - tailIndex);
                 secondChunk = toRead - firstChunk;
                 out = memcpy_from (m_buffer rb) (unat tailIndex) (unat firstChunk)
                       @ (if secondChunk > 0 then memcpy_from (m_buffer rb) 0 (unat secondChunk) else [])
             in (rb\<lparr>m_tail := tail + toRead\<rparr>, out))"

definition Skip :: "RingBuffer \<Rightarrow> size_t \<Rightarrow> RingBuffer \<times> size_t" where
  "Skip rb count =
    (let tail = m_tail rb;
         head = m_head rb;
         available = AvailableToRead rb head tail;
         toSkip = min count available
     in (if toSkip > 0 then rb\<lparr>m_tail := tail + toSkip\<rparr> else rb, toSkip))"

definition Size :: "RingBuffer \<Rightarrow> size_t" where
  "Size rb = AvailableToRead rb (m_head rb) (m_tail rb)"

definition Available :: "RingBuffer \<Rightarrow> size_t" where
  "Available rb = AvailableToWrite rb (m_head rb) (m_tail rb)"

definition IsEmpty :: "RingBuffer \<Rightarrow> bool" where
  "IsEmpty rb = (Size rb = 0)"

definition IsFull :: "RingBuffer \<Rightarrow> bool" where
  "IsFull rb = (Available rb = 0)"

definition Capacity :: "RingBuffer \<Rightarrow> size_t" where
  "Capacity rb = m_capacity rb - 1"

definition Clear :: "RingBuffer \<Rightarrow> RingBuffer" where
  "Clear rb = rb\<lparr>m_head := 0, m_tail := 0\<rparr>"

text \<open>Whether the two \<^verbatim>\<open>memcpy\<close> calls of \<^verbatim>\<open>Write\<close> stay inside the storage:
  \<open>memcpy_in_bounds buf off n\<close> says that the \<open>n\<close> bytes at \<^verbatim>\<open>&buf[off]\<close> lie in \<open>buf\<close>, and
  \<open>Write_in_bounds\<close> computes the chunks as \<^verbatim>\<open>Write\<close> does and checks both copies.\<close>

definition memcpy_in_bounds :: "byte list \<Rightarrow> nat \<Rightarrow> nat \<Rightarrow> bool" where
  "memcpy_in_bounds buf off n \<longleftrightarrow> off + n \<le> length buf"

definition Write_in_bounds :: "RingBuffer \<Rightarrow> byte list \<Rightarrow> bool" where
  "Write_in_bounds rb data =
    (let head = m_head rb;
         tail = m_tail rb;
         available = AvailableToWrite rb head tail;
         toWrite = min (word_of_nat (length data)) available
     in if toWrite = 0 then True
        else let headIndex = head AND m_mask rb;
                 firstChunk = min toWrite (m_capacity rb - headIndex);
                 secondChunk = toWrite - firstChunk
             in memcpy_in_bounds (m_buffer rb) (unat headIndex) (unat firstChunk)
                \<and> (if secondChunk > 0 then memcpy_in_bounds (m_buffer rb) 0 (unat secondChunk)
                   else True))"

subsection \<open>Specification-side notions for the ring buffer\<close>

text \<open>A capacity rounded up to a power of two: double, starting from 1, until the request
  is covered.\<close>

function round_up_pow2 :: "nat \<Rightarrow> nat \<Rightarrow> nat" where
  "round_up_pow2 p n = (if n \<le> p \<or> p = 0 then p else round_up_pow2 (2 * p) n)"
  by pat_completeness auto
termination
  by (relation "measure (\<lambda>(p, n). n - p)") auto

declare round_up_pow2.simps [simp del]

definition rounded_capacity :: "nat \<Rightarrow> nat" where
  "rounded_capacity n = round_up_pow2 1 n"

text \<open>The queue a buffer holds: the bytes from the tail up to the head, each at its index
  masked into the storage.\<close>

definition ring_contents :: "RingBuffer \<Rightarrow> byte list" where
  "ring_contents rb =
    map (\<lambda>i. m_buffer rb ! unat ((m_tail rb + word_of_nat i) AND m_mask rb))
      [0..<unat (m_head rb - m_tail rb)]"

text \<open>The representation invariant of a buffer with a capacity of \<open>2 ^ k\<close>.\<close>

definition ring_inv :: "nat \<Rightarrow> RingBuffer \<Rightarrow> bool" where
  "ring_inv k rb \<longleftrightarrow>
     k < 64 \<and> m_capacity rb = 2 ^ k \<and> m_mask rb = m_capacity rb - 1 \<and>
     length (m_buffer rb) = 2 ^ k \<and> unat (m_head rb - m_tail rb) < 2 ^ k"

text \<open>Sequences of operations on one buffer.\<close>

datatype ring_op = OpWrite "byte list" | OpRead size_t | OpPeek size_t | OpSkip size_t | OpClear

fun apply_op :: "RingBuffer \<Rightarrow> ring_op \<Rightarrow> RingBuffer" where
  "apply_op rb (OpWrite data) = fst (Write rb data)"
| "apply_op rb (OpRead maxLength) = fst (Read rb maxLength)"
| "apply_op rb (OpPeek maxLength) = rb"
| "apply_op rb (OpSkip count) = fst (Skip rb count)"
| "apply_op rb OpClear = Clear rb"

definition apply_ops :: "RingBuffer \<Rightarrow> ring_op list \<Rightarrow> RingBuffer" where
  "apply_ops rb ops = foldl apply_op rb ops"

text \<open>Interleaved \<open>Write\<close> and \<open>Read\<close> calls: \<open>run_calls\<close> returns the final buffer, the
  concatenation of the bytes submitted to the writes and the concatenation of the bytes
  the reads returned; \<open>writes_fit\<close> says that no write exceeds the free capacity at the
  time of its call.\<close>

datatype ring_call = CallWrite "byte list" | CallRead size_t

fun run_calls :: "RingBuffer \<Rightarrow> ring_call list \<Rightarrow> RingBuffer \<times> byte list \<times> byte list" where
  "run_calls rb [] = (rb, [], [])"
| "run_calls rb (CallWrite data # calls) =
     (case run_calls (fst (Write rb data)) calls of
        (rb', written, readout) \<Rightarrow> (rb', data @ written, readout))"
| "run_calls rb (CallRead maxLength # calls) =
     (case Read rb maxLength of
        (rb1, out) \<Rightarrow>
          (case run_calls rb1 calls of
             (rb', written, readout) \<Rightarrow> (rb', written, out @ readout)))"

fun writes_fit :: "RingBuffer \<Rightarrow> ring_call list \<Rightarrow> bool" where
  "writes_fit rb [] = True"
| "writes_fit rb (CallWrite data # calls) =
     (length data \<le> unat (Available rb) \<and> writes_fit (fst (Write rb data)) calls)"
| "writes_fit rb (CallRead maxLength # calls) = writes_fit (fst (Read rb maxLength)) calls"

section \<open>The parser wrapper (\<^verbatim>\<open>VTermWrapper\<close>)\<close>

type_synonym wstring = "16 word list"

record TermColor =
  tc_r :: byte
  tc_g :: byte
  tc_b :: byte
  tc_isDefault :: bool
  tc_isIndexed :: bool
  tc_paletteIndex :: byte

record CellAttrs =
  ca_bold :: bool
  ca_italic :: bool
  ca_underline :: bool
  ca_blink :: bool
  ca_reverse :: bool
  ca_strikethrough :: bool
  ca_conceal :: bool
  ca_underlineStyle :: byte

record TermCell =
  tcell_chars :: "uint32 list"
  tcell_width :: int
  tcell_attrs :: CellAttrs
  tcell_fg :: TermColor
  tcell_bg :: TermColor

datatype CursorShape = Block | Underline | Bar

record TermProps =
  tp_title :: wstring
  tp_iconName :: wstring
  tp_cursorVisible :: bool
  tp_cursorBlink :: bool
  tp_cursorShape :: CursorShape
  tp_altScreen :: bool
  tp_mouseMode :: int

definition TermProps_default :: TermProps where
  "TermProps_default = \<lparr>tp_title = [], tp_iconName = [], tp_cursorVisible = True,
     tp_cursorBlink = True, tp_cursorShape = Block, tp_altScreen = False, tp_mouseMode = 0\<rparr>"

text \<open>A callback slot is empty or holds a closure. The closures that \<^verbatim>\<open>Session::Start\<close>
  creates each call one member function of the session; a closure for the scrollback slot
  would take the pushed row, and is modelled by what it does to the grid. The slots for
  cursor moves, the bell, resizes and output, which the session never fills and whose
  handlers do nothing else than call them, are left out.\<close>

datatype damage_callback = Session_OnVTermDamage
datatype termprop_callback = Session_OnVTermPropChange
datatype row_callback = RowCallback "TermCell list \<Rightarrow> TerminalBuffer \<Rightarrow> TerminalBuffer"
datatype output_callback = Session_OnPtyOutput
datatype exit_callback = Session_OnPtyExit

record VTermWrapper =
  vt_props :: TermProps
  vt_cursorRow :: int
  vt_cursorCol :: int
  vt_damageCallback :: "damage_callback option"
  vt_termPropCallback :: "termprop_callback option"
  vt_scrollbackPushCallback :: "row_callback option"

text \<open>The wrapper as its constructor leaves it: every callback slot empty. The library's own
  state (\<^verbatim>\<open>VTerm*\<close>, \<^verbatim>\<open>VTermScreen*\<close>) is not part of the model.\<close>

definition VTermWrapper_new :: VTermWrapper where
  "VTermWrapper_new = \<lparr>vt_props = TermProps_default, vt_cursorRow = 0, vt_cursorCol = 0,
     vt_damageCallback = None, vt_termPropCallback = None, vt_scrollbackPushCallback = None\<rparr>"

definition SetDamageCallback :: "VTermWrapper \<Rightarrow> damage_callback \<Rightarrow> VTermWrapper" where
  "SetDamageCallback vt callback = vt\<lparr>vt_damageCallback := Some callback\<rparr>"

definition SetTermPropCallback :: "VTermWrapper \<Rightarrow> termprop_callback \<Rightarrow> VTermWrapper" where
  "SetTermPropCallback vt callback = vt\<lparr>vt_termPropCallback := Some callback\<rparr>"

definition SetScrollbackPushCallback :: "VTermWrapper \<Rightarrow> row_callback \<Rightarrow> VTermWrapper" where
  "SetScrollbackPushCallback vt callback = vt\<lparr>vt_scrollbackPushCallback := Some callback\<rparr>"



section \<open>The PTY session (\<^verbatim>\<open>PtySession\<close>)\<close>

record PtyConfig =
  pc_shell :: wstring
  pc_args :: wstring
  pc_workingDir :: wstring
  pc_cols :: int
  pc_rows :: int

text \<open>\<open>pty_hProcess\<close> says whether \<^verbatim>\<open>m_processInfo.hProcess\<close> is a handle.\<close>

record PtySession =
  pty_running :: bool
  pty_hProcess :: bool
  pty_outputCallback :: "output_callback option"
  pty_exitCallback :: "exit_callback option"
  pty_cols :: int
  pty_rows :: int

definition PtySession_new :: PtySession where
  "PtySession_new = \<lparr>pty_running = False, pty_hProcess = False, pty_outputCallback = None,
     pty_exitCallback = None, pty_cols = 80, pty_rows = 25\<rparr>"

text \<open>\<^verbatim>\<open>PtySession::Start\<close>; \<open>os_ok\<close> says whether creating the pipes, the pseudo console
  and the process all succeeded (the model does not tell the three failures apart).\<close>

definition PtySession_Start :: "bool \<Rightarrow> PtySession \<Rightarrow> PtyConfig \<Rightarrow> PtySession \<times> bool" where
  "PtySession_Start os_ok pty config =
    (if pty_running pty then (pty, False)
     else let pty1 = pty\<lparr>pty_cols := pc_cols config, pty_rows := pc_rows config\<rparr>
          in if \<not> os_ok then (pty1, False)
             else (pty1\<lparr>pty_hProcess := True, pty_running := True\<rparr>, True))"

section \<open>The session (\<^verbatim>\<open>Session\<close>)\<close>

datatype SessionState = Idle | Running | Exited

record SessionConfig =
  sc_shell :: wstring
  sc_args :: wstring
  sc_workingDir :: wstring
  sc_title :: wstring
  sc_profileName :: wstring
  sc_rows :: int
  sc_cols :: int
  sc_scrollbackLines :: nat
  sc_tabIndex :: int

record Session =
  ses_pty :: "PtySession option"
  ses_buffer :: "TerminalBuffer option"
  ses_vterm :: "VTermWrapper option"
  ses_outputBuffer :: "RingBuffer option"
  ses_state :: SessionState
  ses_rows :: int
  ses_cols :: int
  ses_title :: wstring
  ses_exitCode :: uint32
  ses_exitCallback :: bool
  ses_titleCallback :: bool

text \<open>The wide string \<^verbatim>\<open>L"Console3"\<close> and a default-constructed session.\<close>

definition wide :: "string \<Rightarrow> wstring" where
  "wide s = map (\<lambda>c. word_of_nat (of_char c)) s"

definition Session_new :: Session where
  "Session_new = \<lparr>ses_pty = None, ses_buffer = None, ses_vterm = None, ses_outputBuffer = None,
     ses_state = Idle, ses_rows = 25, ses_cols = 80, ses_title = wide ''Console3'',
     ses_exitCode = 0, ses_exitCallback = False, ses_titleCallback = False\<rparr>"

text \<open>\<^verbatim>\<open>Session::Start\<close>. \<open>vterm_ok\<close> says whether the \<^verbatim>\<open>VTermWrapper\<close> constructor returned
  (it throws when the library gives no instance), \<open>os_ok\<close> whether the PTY started.\<close>

definition Session_Start :: "bool \<Rightarrow> bool \<Rightarrow> Session \<Rightarrow> SessionConfig \<Rightarrow> Session \<times> bool" where
  "Session_Start vterm_ok os_ok s config =
    (if ses_state s = Running then (s, False)
     else
       let s1 = s\<lparr>ses_rows := sc_rows config, ses_cols := sc_cols config, ses_title := sc_title config\<rparr>;
           bufConfig = \<lparr>cfg_rows = sc_rows config, cfg_cols = sc_cols config,
                        cfg_scrollbackLines = sc_scrollbackLines config\<rparr>
       in case TerminalBuffer_new bufConfig of
            Inl e \<Rightarrow> (s1, False)
          | Inr tb \<Rightarrow>
              let s2 = s1\<lparr>ses_buffer := Some tb\<rparr>;
                  s3 = s2\<lparr>ses_outputBuffer := Some (RingBuffer_new 65536)\<rparr>
              in if \<not> vterm_ok then (s3, False)
                 else
                   let vt = SetTermPropCallback
                              (SetDamageCallback VTermWrapper_new Session_OnVTermDamage)
                              Session_OnVTermPropChange;
                       s4 = s3\<lparr>ses_vterm := Some vt\<rparr>;
                       pty = PtySession_new\<lparr>pty_outputCallback := Some Session_OnPtyOutput,
                                            pty_exitCallback := Some Session_OnPtyExit\<rparr>;
                       ptyConfig = \<lparr>pc_shell = sc_shell config, pc_args = sc_args config,
                                    pc_workingDir = sc_workingDir config,
                                    pc_cols = sc_cols config, pc_rows = sc_rows config\<rparr>
                   in case PtySession_Start os_ok pty ptyConfig of
                        (pty1, started) \<Rightarrow>
                          let s5 = s4\<lparr>ses_pty := Some pty1\<rparr>
                          in if \<not> started then (s5, False)
                             else (s5\<lparr>ses_state := Running\<rparr>, True))"

subsection \<open>The callbacks of the session\<close>

definition OnPtyOutput :: "Session \<Rightarrow> byte list \<Rightarrow> Session" where
  "OnPtyOutput s data =
    (case ses_outputBuffer s of
       None \<Rightarrow> s
     | Some rb \<Rightarrow> s\<lparr>ses_outputBuffer := Some (fst (Write rb data))\<rparr>)"

definition OnPtyExit :: "Session \<Rightarrow> uint32 \<Rightarrow> Session" where
  "OnPtyExit s exitCode = s\<lparr>ses_exitCode := exitCode, ses_state := Exited\<rparr>"











subsection \<open>The static handlers of the wrapper, acting on the session that owns it\<close>











text \<open>A session of 10 rows and 20 columns with the default scrollback cap, and a row of 20
  blank cells as the parser pushes it.\<close>

definition config_10x20 :: SessionConfig where
  "config_10x20 = \<lparr>sc_shell = wide ''cmd.exe'', sc_args = [], sc_workingDir = [],
     sc_title = wide ''Console3'', sc_profileName = [], sc_rows = 10, sc_cols = 20,
     sc_scrollbackLines = 10000, sc_tabIndex = 0\<rparr>"


subsection \<open>The reader thread (\<^verbatim>\<open>PtySession::IoThreadProc\<close>)\<close>

text \<open>The thread runs on the \<^verbatim>\<open>PtySession\<close> that the session owns and calls back into the
  session, so the model is a function on the session. Each blocking \<^verbatim>\<open>ReadFile\<close> returns
  the next element of a list: the bytes read, or the error code of a failed read. When the
  list is used up the read blocks for ever and the thread does not return (\<open>None\<close>).
  \<open>exitQuery\<close> is what \<^verbatim>\<open>GetExitCodeProcess\<close> gives after the loop, \<open>None\<close> when it fails.\<close>

datatype ReadFile_result = ReadFile_ok "byte list" | ReadFile_failed uint32

definition STILL_ACTIVE :: uint32 where "STILL_ACTIVE = 259"
definition ERROR_ACCESS_DENIED :: uint32 where "ERROR_ACCESS_DENIED = 5"
definition ERROR_BROKEN_PIPE :: uint32 where "ERROR_BROKEN_PIPE = 109"
definition ERROR_OPERATION_ABORTED :: uint32 where "ERROR_OPERATION_ABORTED = 995"

definition pty_is_running :: "Session \<Rightarrow> bool" where
  "pty_is_running s = (case ses_pty s of None \<Rightarrow> False | Some pty \<Rightarrow> pty_running pty)"

definition call_output :: "Session \<Rightarrow> byte list \<Rightarrow> Session" where
  "call_output s bytes =
    (case ses_pty s of
       None \<Rightarrow> s
     | Some pty \<Rightarrow>
         (case pty_outputCallback pty of
            None \<Rightarrow> s
          | Some Session_OnPtyOutput \<Rightarrow> OnPtyOutput s bytes))"

fun IoThreadProc_loop :: "Session \<Rightarrow> ReadFile_result list \<Rightarrow> Session option" where
  "IoThreadProc_loop s [] = (if pty_is_running s then None else Some s)"
| "IoThreadProc_loop s (ReadFile_failed err # reads) = Some s"
| "IoThreadProc_loop s (ReadFile_ok bytes # reads) =
    (if \<not> pty_is_running s then Some s
     else if bytes = [] then Some s
     else IoThreadProc_loop (call_output s bytes) reads)"

definition IoThreadProc_exit :: "Session \<Rightarrow> uint32 option \<Rightarrow> Session" where
  "IoThreadProc_exit s exitQuery =
    (case ses_pty s of
       None \<Rightarrow> s
     | Some pty \<Rightarrow>
         let s1 = (if pty_hProcess pty then
                     (case exitQuery of
                        None \<Rightarrow> s
                      | Some exitCode \<Rightarrow>
                          (case pty_exitCallback pty of
                             None \<Rightarrow> s
                           | Some Session_OnPtyExit \<Rightarrow>
                               if exitCode \<noteq> STILL_ACTIVE then OnPtyExit s exitCode else s))
                   else s)
         in s1\<lparr>ses_pty := Some (pty\<lparr>pty_running := False\<rparr>)\<rparr>)"

definition IoThreadProc :: "Session \<Rightarrow> ReadFile_result list \<Rightarrow> uint32 option \<Rightarrow> Session option" where
  "IoThreadProc s reads exitQuery =
    (case IoThreadProc_loop s reads of
       None \<Rightarrow> None
     | Some s1 \<Rightarrow> Some (IoThreadProc_exit s1 exitQuery))"

text \<open>A session started with the 10x20 configuration, every outside call succeeding.\<close>

definition session_10x20 :: Session where
  "session_10x20 = fst (Session_Start True True Session_new config_10x20)"


section \<open>Session persistence (\<^verbatim>\<open>Session::Serialize\<close>, \<^verbatim>\<open>Session::Deserialize\<close>)\<close>

text \<open>A \<^verbatim>\<open>std::string\<close> is a list of bytes (\<open>char\<close>), a \<^verbatim>\<open>std::wstring\<close> a list of UTF-16
  code units. The conversions between them call the operating system
  (\<^verbatim>\<open>WideCharToMultiByte\<close>, \<^verbatim>\<open>MultiByteToWideChar\<close> with \<^verbatim>\<open>CP_UTF8\<close>): the system call is a
  parameter of the model, the wrappers around it are as in the source.\<close>

definition dq :: char where "dq = CHR 0x22"







text \<open>\<^verbatim>\<open>std::string::find(needle, pos)\<close> and \<^verbatim>\<open>substr(pos, n)\<close>; \<open>None\<close> is \<^verbatim>\<open>npos\<close>.\<close>

fun find_sub :: "string \<Rightarrow> string \<Rightarrow> nat option" where
  "find_sub needle [] = (if needle = [] then Some 0 else None)"
| "find_sub needle (c # cs) =
     (if prefix needle (c # cs) then Some 0 else map_option Suc (find_sub needle cs))"




























section \<open>Theorems: key translation\<close>

lemma digit_char_simps:
  "digit_char 0 = CHR ''0''" "digit_char 1 = CHR ''1''" "digit_char 2 = CHR ''2''"
  "digit_char 3 = CHR ''3''" "digit_char 4 = CHR ''4''" "digit_char 5 = CHR ''5''"
  "digit_char 6 = CHR ''6''" "digit_char 7 = CHR ''7''" "digit_char 8 = CHR ''8''"
  "digit_char 9 = CHR ''9''"
  by (simp_all add: digit_char_def)

text \<open>Claim C9. For a key-down event of an arrow key with the keyboard callback installed,
  the translator sends \<open>ESC [ A/B/C/D\<close> when neither shift, alt nor ctrl is held, and
  \<open>ESC [ 1 ; M A/B/C/D\<close> otherwise, where \<open>M = 1 + (shift?1:0) + (alt?2:0) + (ctrl?4:0)\<close>
  is written as one decimal digit.\<close>

theorem arrow_key_sequence:
  "SendKeyToTerminal True ctrl alt shift (arrow_vkey a) True =
     Some (if \<not> shift \<and> \<not> alt \<and> \<not> ctrl then [ESC, CHR ''['', arrow_final a]
           else [ESC, CHR ''['', CHR ''1'', CHR '';'',
                 digit_char (spec_modifier shift alt ctrl), arrow_final a])"
  by (cases a; cases ctrl; cases alt; cases shift)
     (simp_all add: SendKeyToTerminal_def VK_UP_def VK_DOWN_def VK_LEFT_def VK_RIGHT_def
        VK_OEM_4_def modSeq_def snprintf_trunc_def strlen_prefix_def to_string_def
        dec_digits.simps spec_modifier_def ESC_def digit_char_def)

text \<open>Scenario S6: Up with shift and ctrl sends \<open>ESC [ 1 ; 6 A\<close>.\<close>

theorem arrow_key_sequence_witness:
  "SendKeyToTerminal True True False True VK_UP True =
     Some [CHR 0x1B, CHR ''['', CHR ''1'', CHR '';'', CHR ''6'', CHR ''A'']"
  using arrow_key_sequence [of True False True Up]
  by (simp add: spec_modifier_def digit_char_def ESC_def)

section \<open>Theorems: text extraction\<close>

lemma GetRegionText_loop_eq:
  "GetRegionText_loop tb sr sc er ec row result =
     result @ join_lines (map (GetRowText tb) [row..er])"
proof (induction tb sr sc er ec row result rule: GetRegionText_loop.induct)
  case (1 tb sr sc er ec row result)
  show ?case
  proof (cases "row \<le> er")
    case False
    then show ?thesis by (simp add: GetRegionText_loop.simps)
  next
    case True
    note le = this
    have step: "[row..er] = row # [row + 1..er]"
      using le by (simp add: upto_rec1)
    show ?thesis
    proof (cases "row < er")
      case True
      then obtain y ys where rest: "[row + 1..er] = y # ys"
        by (cases "[row + 1..er]") auto
      show ?thesis using True le 1 [OF le refl refl refl refl refl]
        by (subst GetRegionText_loop.simps) (simp add: Let_def step rest)
    next
      case False
      with le have eq: "row = er" by simp
      then have "[row + 1..er] = []" by simp
      moreover have "GetRegionText_loop tb sr sc er ec (er + 1) r = r" for r
        by (subst GetRegionText_loop.simps) simp
      ultimately show ?thesis using eq
        by (subst GetRegionText_loop.simps) (simp add: Let_def step)
    qed
  qed
qed

text \<open>Claim C10. For all arguments, \<^verbatim>\<open>GetRegionText\<close> returns the text of the whole rows
  from the clamped start row to the clamped end row, a newline between consecutive rows:
  the result does not depend on \<open>startCol\<close> and \<open>endCol\<close>.\<close>

theorem GetRegionText_whole_rows:
  "GetRegionText tb startRow startCol endRow endCol = whole_rows_text tb startRow endRow"
  by (simp add: GetRegionText_def whole_rows_text_def Let_def GetRegionText_loop_eq)

text \<open>On the grid holding \<open>ab\<close> and \<open>c\<close>, the region from column 1 of row 0 to column 0 of
  row 1 is still the text of both rows.\<close>

theorem GetRegionText_whole_rows_witness:
  "GetRegionText grid_abc 0 1 1 0 = [0x61, 0x62, 0x0A, 0x63]"
  using GetRegionText_whole_rows [of grid_abc 0 1 1 0]
  by (simp add: whole_rows_text_def grid_abc_def grid_2x3_def std_clamp_def upto_rec1
        GetRowText_def SetChar_def store_cell_def MarkDirty_def s_emptyCell_def utf8_encode_def
        trim_trailing_spaces.simps)

section \<open>Theorems: the cell grid\<close>


subsection \<open>Out-of-range accesses\<close>





subsection \<open>Resize\<close>

lemma length_vector_resize [simp]: "length (vector_resize n v xs) = n"
  by (auto simp: vector_resize_def)

lemma length_Resize_push_rows: "length (Resize_push_rows n e s) = length s + n"
  by (induction n e s rule: Resize_push_rows.induct) auto

lemma set_Resize_push_rows: "set (Resize_push_rows n e s) \<subseteq> set s \<union> {e}"
  by (induction n e s rule: Resize_push_rows.induct) auto

lemma Resize_evict_rows_eq: "Resize_evict_rows n s sb = (drop n s, rev (take n s) @ sb)"
  by (induction n s sb rule: Resize_evict_rows.induct) (auto split: list.splits)


lemma length_CreateEmptyRow [simp]: "length (CreateEmptyRow tb) = nat (m_cols tb)"
  by (simp add: CreateEmptyRow_def)

lemma Resize_rows_fields [simp]:
  "m_cols (Resize_rows tb r) = m_cols tb" "m_dirty (Resize_rows tb r) = m_dirty tb"
  "m_rows (Resize_rows tb r) = r"
  by (auto simp: Resize_rows_def TrimScrollback_def Resize_evict_rows_eq)

lemma Resize_rows_length:
  assumes "0 < r" "int (length (m_screen tb)) = m_rows tb"
  shows "length (m_screen (Resize_rows tb r)) = nat r"
  using assms
  by (auto simp: Resize_rows_def TrimScrollback_def length_Resize_push_rows Resize_evict_rows_eq)

lemma Resize_rows_set:
  "set (m_screen (Resize_rows tb r)) \<subseteq> set (m_screen tb) \<union> {CreateEmptyRow tb}"
  using set_Resize_push_rows [of "nat (r - m_rows tb)" "CreateEmptyRow tb" "m_screen tb"]
    set_drop_subset [of "nat (m_rows tb - r)" "m_screen tb"]
  by (auto simp: Resize_rows_def TrimScrollback_def Resize_evict_rows_eq)

lemma Resize_cols_screen:
  "m_screen (Resize_cols tb c) =
     (if c \<noteq> m_cols tb then map (vector_resize (nat c) s_emptyCell) (m_screen tb) else m_screen tb)"
  if "0 < c"
proof -
  have "(if int (length row) < c then vector_resize (nat c) s_emptyCell row
         else if int (length row) > c then vector_resize (nat c) s_emptyCell row else row)
        = vector_resize (nat c) s_emptyCell row" for row
    using that by (auto simp: vector_resize_def)
  then show ?thesis by (simp add: Resize_cols_def)
qed

lemma Resize_cols_fields [simp]:
  "m_rows (Resize_cols tb c) = m_rows tb" "m_dirty (Resize_cols tb c) = m_dirty tb"
  "m_cols (Resize_cols tb c) = c"
  by (auto simp: Resize_cols_def)

text \<open>Claim C6, amended. For all \<open>r > 0\<close> and \<open>c > 0\<close> and every grid whose screen holds
  \<open>m_rows\<close> rows, each of them of \<open>m_cols\<close> cells in case \<open>c = m_cols\<close>: after
  \<^verbatim>\<open>Resize(r, c)\<close> the screen holds exactly \<open>r\<close> rows, every row holds exactly \<open>c\<close> cells, and
  the dirty bitmap has length \<open>r\<close> with every bit set.\<close>

theorem Resize_shape:
  assumes "0 < r" and "0 < c"
    and "int (length (m_screen tb)) = m_rows tb"
    and "c = m_cols tb \<longrightarrow> (\<forall>row \<in> set (m_screen tb). length row = nat c)"
  shows "length (m_screen (Resize tb r c)) = nat r
       \<and> (\<forall>row \<in> set (m_screen (Resize tb r c)). length row = nat c)
       \<and> m_dirty (Resize tb r c) = replicate (nat r) True"
proof -
  let ?tb1 = "Resize_rows tb r"
  let ?tb2 = "Resize_cols ?tb1 c"
  have R: "Resize tb r c =
      MarkAllDirty (?tb2\<lparr>m_dirty := vector_resize (nat (m_rows ?tb2)) True (m_dirty ?tb2)\<rparr>)"
    using assms(1,2) by (simp add: Resize_def Let_def)
  have len: "length (m_screen ?tb2) = nat r"
    using assms by (simp add: Resize_cols_screen Resize_rows_length)
  have rows: "\<forall>row \<in> set (m_screen ?tb2). length row = nat c"
  proof (cases "c = m_cols tb")
    case True
    then have "\<forall>row \<in> set (m_screen ?tb1). length row = nat c"
      using assms(4) Resize_rows_set [of tb r] by auto
    then show ?thesis using True assms(2) by (simp add: Resize_cols_screen)
  next
    case False
    then show ?thesis using assms(2) by (simp add: Resize_cols_screen)
  qed
  have dirty: "m_dirty (Resize tb r c) = replicate (nat r) True"
    unfolding R by (simp add: MarkAllDirty_def map_replicate_const)
  show ?thesis using len rows dirty unfolding R by (simp add: MarkAllDirty_def)
qed

text \<open>Shrinking the 2x3 grid to one row of the same width, and growing it to 3x5.\<close>

theorem Resize_shape_witness:
  "map length (m_screen (Resize grid_2x3 1 3)) = [3]
 \<and> m_dirty (Resize grid_2x3 1 3) = [True]
 \<and> map length (m_screen (Resize grid_2x3 3 5)) = [5, 5, 5]
 \<and> m_dirty (Resize grid_2x3 3 5) = [True, True, True]"
  using Resize_shape [of 1 3 grid_2x3] Resize_shape [of 3 5 grid_2x3]
  by (simp add: grid_2x3_def) code_simp

text \<open>A grid that the public operations reach: scroll the 2x3 grid up by one line (its top
  row, of 3 cells, goes to the scrollback), widen it to 5 columns, scroll down by one line
  (the 3-cell row returns from the scrollback). \<^verbatim>\<open>Resize(3, 5)\<close> then leaves that row at 3
  cells, since the column count is unchanged.\<close>

theorem Resize_shape_counterexample:
  "m_cols (ScrollDown (Resize (ScrollUp grid_2x3) 2 5)) = 5
 \<and> map length (m_screen (Resize (ScrollDown (Resize (ScrollUp grid_2x3) 2 5)) 3 5)) = [3, 5, 5]"
  by code_simp

section \<open>Theorems: the ring buffer\<close>

subsection \<open>Bits of a word\<close>

lemma bit_ge_pow: fixes x :: "'a::len word" assumes "bit x j" shows "2 ^ j \<le> unat x"
proof -
  have "bit (unat x) j" using assms by (simp add: bit_unsigned_iff)
  then have "odd (unat x div 2 ^ j)" by (simp add: bit_iff_odd)
  then have "unat x div 2 ^ j \<noteq> 0" by (intro notI) simp
  then show ?thesis by (metis div_less not_le)
qed

lemma no_upper_bits: fixes x :: "'a::len word" assumes "\<And>j. i \<le> j \<Longrightarrow> \<not> bit x j" shows "unat x < 2 ^ i"
proof -
  have "take_bit i (unat x) = unat x"
    by (rule bit_eqI) (use assms in \<open>auto simp: bit_take_bit_iff bit_unsigned_iff not_le [symmetric]\<close>)
  then show ?thesis by (metis take_bit_nat_less_exp)
qed

lemma smear_step:
  fixes x y :: "'a::len word"
  assumes "\<And>i. bit y i \<longleftrightarrow> (\<exists>j<d. bit x (i + j))"
  shows "bit (y OR drop_bit d y) i \<longleftrightarrow> (\<exists>j<2*d. bit x (i + j))"
proof -
  have "bit (y OR drop_bit d y) i \<longleftrightarrow> (\<exists>j<d. bit x (i + j)) \<or> (\<exists>j<d. bit x (d + i + j))"
    by (simp add: bit_or_iff bit_drop_bit_eq assms)
  also have "\<dots> \<longleftrightarrow> (\<exists>j<2*d. bit x (i + j))"
  proof
    assume "(\<exists>j<d. bit x (i + j)) \<or> (\<exists>j<d. bit x (d + i + j))"
    then show "\<exists>j<2*d. bit x (i + j)"
    proof
      assume "\<exists>j<d. bit x (i + j)"
      then obtain j where "j < d" "bit x (i + j)" by blast
      then show ?thesis by (intro exI [of _ j]) simp
    next
      assume "\<exists>j<d. bit x (d + i + j)"
      then obtain j where "j < d" "bit x (d + i + j)" by blast
      then show ?thesis by (intro exI [of _ "d + j"]) (simp add: ac_simps)
    qed
  next
    assume "\<exists>j<2*d. bit x (i + j)"
    then obtain j where j: "j < 2 * d" "bit x (i + j)" by blast
    show "(\<exists>j<d. bit x (i + j)) \<or> (\<exists>j<d. bit x (d + i + j))"
    proof (cases "j < d")
      case True
      with j show ?thesis by blast
    next
      case False
      with j have "j - d < d" "bit x (d + i + (j - d))" by (simp_all add: ac_simps)
      then show ?thesis by blast
    qed
  qed
  finally show ?thesis .
qed

subsection \<open>The two-chunk copies\<close>

lemma length_memcpy_to: "off + length src \<le> length buf \<Longrightarrow> length (memcpy_to buf off src) = length buf"
  by (simp add: memcpy_to_def)

lemma nth_memcpy_to:
  assumes "off + length src \<le> length buf" "p < length buf"
  shows "memcpy_to buf off src ! p = (if off \<le> p \<and> p < off + length src then src ! (p - off) else buf ! p)"
  using assms by (auto simp: memcpy_to_def nth_append)

lemma mod_inj_window:
  fixes a b C :: nat
  assumes "a \<le> b" "b - a < C" "a mod C = b mod C"
  shows "a = b"
proof -
  have "C dvd b - a" using assms(1,3) by (metis mod_eq_dvd_iff_nat)
  then have "b - a = 0" using assms(2) by (metis dvd_imp_le not_less neq0_conv)
  with assms(1) show ?thesis by simp
qed

lemma ring_write_nat:
  fixes buf data :: "byte list"
  assumes len: "length buf = C" and hi: "hi < C" and n: "n \<le> length data" "n < C"
    and first: "first = min n (C - hi)" and second: "second = n - first"
    and buf1: "buf1 = memcpy_to buf hi (take first data)"
    and buf2: "buf2 = (if second > 0 then memcpy_to buf1 0 (take second (drop first data)) else buf1)"
  shows "length buf2 = C"
    and "\<And>i. i < n \<Longrightarrow> buf2 ! ((hi + i) mod C) = data ! i"
    and "\<And>p. p < C \<Longrightarrow> (\<forall>i<n. p \<noteq> (hi + i) mod C) \<Longrightarrow> buf2 ! p = buf ! p"
proof -
  have l1: "length (take first data) = first" using n first by simp
  have fit1: "hi + first \<le> C" using first hi by simp
  have len1: "length buf1 = C" using len fit1 l1 by (simp add: buf1 length_memcpy_to)
  have "second \<le> length data - first" using n second by arith
  then have l2: "length (take second (drop first data)) = second" by simp
  have fit2: "second \<le> C" using second n by simp
  show len2: "length buf2 = C" using len1 l2 fit2 by (simp add: buf2 length_memcpy_to)
  have sec_lt: "second \<le> hi" using second first n by (auto simp: min_def split: if_splits)
  have nth1: "buf1 ! p = (if hi \<le> p \<and> p < hi + first then data ! (p - hi) else buf ! p)" if "p < C" for p
    using that len fit1 l1 by (auto simp: buf1 nth_memcpy_to)
  have nth2: "buf2 ! p = (if p < second then data ! (first + p) else buf1 ! p)" if "p < C" for p
    using that len1 l2 fit2 by (auto simp: buf2 nth_memcpy_to)
  show "buf2 ! ((hi + i) mod C) = data ! i" if "i < n" for i
  proof (cases "i < first")
    case True
    then have "hi + i < C" using fit1 by arith
    then show ?thesis using True sec_lt by (simp add: nth2 nth1)
  next
    case False
    then have fst: "first = C - hi" using that first by (simp add: min_def split: if_splits)
    have "hi + i = C + (i - first)" "i - first < C" using fst False hi n that by arith+
    then have "(hi + i) mod C = i - first" by simp
    moreover have "i - first < second" using False that second by simp
    ultimately show ?thesis using False fit2 by (simp add: nth2)
  qed
  show "buf2 ! p = buf ! p" if "p < C" and out: "\<forall>i<n. p \<noteq> (hi + i) mod C" for p
  proof -
    have a: "\<not> p < second"
    proof
      assume ps: "p < second"
      then have fst: "first = C - hi" using first second by (simp add: min_def split: if_splits)
      have "first + p < n" using ps second by simp
      moreover have "(hi + (first + p)) mod C = p" using fst hi that(1) by simp
      ultimately show False using out by metis
    qed
    have b: "\<not> (hi \<le> p \<and> p < hi + first)"
    proof
      assume "hi \<le> p \<and> p < hi + first"
      then have "p - hi < n" "(hi + (p - hi)) mod C = p" using first that(1) by (arith, simp)
      then show False using out by metis
    qed
    show ?thesis using a b that(1) by (auto simp: nth2 nth1)
  qed
qed

lemma ring_read_nat:
  fixes buf :: "byte list"
  assumes len: "length buf = C" and ti: "ti < C" and n: "n \<le> C"
    and first: "first = min n (C - ti)" and second: "second = n - first"
  shows "memcpy_from buf ti first @ (if second > 0 then memcpy_from buf 0 second else [])
         = map (\<lambda>i. buf ! ((ti + i) mod C)) [0..<n]"
proof (rule nth_equalityI)
  have l1: "length (memcpy_from buf ti first) = first" using len first ti by (simp add: memcpy_from_def)
  have l2: "length (memcpy_from buf 0 second) = second" using len second n by (simp add: memcpy_from_def)
  have fs: "first + second = n" using first second by simp
  show L: "length (memcpy_from buf ti first @ (if second > 0 then memcpy_from buf 0 second else []))
        = length (map (\<lambda>i. buf ! ((ti + i) mod C)) [0..<n])"
    using l1 l2 fs by simp
  fix i
  assume "i < length (memcpy_from buf ti first @ (if second > 0 then memcpy_from buf 0 second else []))"
  then have i: "i < n" using L by simp
  show "(memcpy_from buf ti first @ (if second > 0 then memcpy_from buf 0 second else [])) ! i
        = map (\<lambda>i. buf ! ((ti + i) mod C)) [0..<n] ! i"
  proof (cases "i < first")
    case True
    then have "ti + i < C" using first by arith
    then show ?thesis using True i l1 len by (simp add: nth_append memcpy_from_def)
  next
    case False
    then have fst: "first = C - ti" using i first by (simp add: min_def split: if_splits)
    have "ti + i = C + (i - first)" "i - first < C" using fst False ti n i by arith+
    then have m: "(ti + i) mod C = i - first" by simp
    have "i - first < second" using False i second by simp
    then show ?thesis using False i l1 m len n second by (simp add: nth_append memcpy_from_def)
  qed
qed

subsection \<open>Rounding up to a power of two\<close>

lemma NextPowerOfTwo_bits:
  assumes "n \<noteq> 0"
  shows "\<exists>y. NextPowerOfTwo n = y + 1 \<and> (\<forall>i. bit y i \<longleftrightarrow> (\<exists>j\<ge>i. bit (n - 1) j))"
proof -
  define x where "x = n - 1"
  define n2 where "n2 = x OR drop_bit 1 x"
  define n3 where "n3 = n2 OR drop_bit 2 n2"
  define n4 where "n4 = n3 OR drop_bit 4 n3"
  define n5 where "n5 = n4 OR drop_bit 8 n4"
  define n6 where "n6 = n5 OR drop_bit 16 n5"
  define n7 where "n7 = n6 OR drop_bit 32 n6"
  have b1: "bit x i \<longleftrightarrow> (\<exists>j<1. bit x (i + j))" for i by simp
  have b2: "bit n2 i \<longleftrightarrow> (\<exists>j<2. bit x (i + j))" for i
    unfolding n2_def using smear_step [of x 1 x i, OF b1] by simp
  have b3: "bit n3 i \<longleftrightarrow> (\<exists>j<4. bit x (i + j))" for i
    unfolding n3_def using smear_step [of n2 2 x i, OF b2] by simp
  have b4: "bit n4 i \<longleftrightarrow> (\<exists>j<8. bit x (i + j))" for i
    unfolding n4_def using smear_step [of n3 4 x i, OF b3] by simp
  have b5: "bit n5 i \<longleftrightarrow> (\<exists>j<16. bit x (i + j))" for i
    unfolding n5_def using smear_step [of n4 8 x i, OF b4] by simp
  have b6: "bit n6 i \<longleftrightarrow> (\<exists>j<32. bit x (i + j))" for i
    unfolding n6_def using smear_step [of n5 16 x i, OF b5] by simp
  have b7: "bit n7 i \<longleftrightarrow> (\<exists>j<64. bit x (i + j))" for i
    unfolding n7_def using smear_step [of n6 32 x i, OF b6] by simp
  have ge: "bit n7 i \<longleftrightarrow> (\<exists>j\<ge>i. bit x j)" for i
  proof
    assume "bit n7 i"
    then obtain j where "bit x (i + j)" by (auto simp: b7)
    then show "\<exists>j\<ge>i. bit x j" by (intro exI [of _ "i + j"]) simp
  next
    assume "\<exists>j\<ge>i. bit x j"
    then obtain j where j: "i \<le> j" "bit x j" by blast
    then have "j < 64" using bit_imp_le_length [of x j] by simp
    then have "j - i < 64" "bit x (i + (j - i))" using j by simp_all
    then show "bit n7 i" unfolding b7 by blast
  qed
  have "NextPowerOfTwo n = n7 + 1"
    using assms
    by (simp add: NextPowerOfTwo_def Let_def n7_def n6_def n5_def n4_def n3_def n2_def x_def)
  then show ?thesis using ge unfolding x_def by blast
qed

lemma upper_bits_mask:
  fixes x y :: size_t
  assumes bits: "\<And>i. bit y i \<longleftrightarrow> (\<exists>j\<ge>i. bit x j)"
    and "unat x < 2 ^ k" and "k = 0 \<or> 2 ^ (k - 1) \<le> unat x"
  shows "y = mask k"
proof (rule bit_eqI)
  fix i
  assume "possible_bit TYPE(size_t) i"
  then have i64: "i < 64" by simp
  have "(\<exists>j\<ge>i. bit x j) \<longleftrightarrow> i < k"
  proof
    assume "\<exists>j\<ge>i. bit x j"
    then obtain j where j: "i \<le> j" "bit x j" by blast
    then have "2 ^ j \<le> unat x" by (rule_tac bit_ge_pow)
    with assms(2) have "(2::nat) ^ j < 2 ^ k" by linarith
    then have "j < k" by simp
    with j show "i < k" by simp
  next
    assume ik: "i < k"
    show "\<exists>j\<ge>i. bit x j"
    proof (rule ccontr)
      assume "\<not> (\<exists>j\<ge>i. bit x j)"
      then have "unat x < 2 ^ i" by (intro no_upper_bits) blast
      moreover have "(2::nat) ^ i \<le> 2 ^ (k - 1)" using ik by (intro power_increasing) simp_all
      moreover have "2 ^ (k - 1) \<le> unat x" using assms(3) ik by auto
      ultimately show False by simp
    qed
  qed
  then show "bit y i \<longleftrightarrow> bit (mask k :: size_t) i"
    using i64 by (simp add: bits bit_mask_iff)
qed

lemma NextPowerOfTwo_exp:
  assumes "n \<noteq> 0"
  shows "\<exists>k\<le>64. NextPowerOfTwo n = 2 ^ k \<and> unat n \<le> 2 ^ k \<and> (k = 0 \<or> 2 ^ (k - 1) < unat n)"
proof -
  define x where "x = n - 1"
  have ux: "unat n = unat x + 1" using assms unfolding x_def
    by (metis Suc_eq_plus1 Suc_pred' unat_gt_0 unat_minus_one)
  define k where "k = (LEAST k. unat x < 2 ^ k)"
  have x64: "unat x < 2 ^ 64" using unsigned_less [of x] by simp
  have k64: "k \<le> 64" unfolding k_def using x64 by (rule Least_le)
  have lt: "unat x < 2 ^ k" unfolding k_def using x64 by (rule LeastI [of "\<lambda>k. unat x < 2 ^ k"])
  have lo: "k = 0 \<or> 2 ^ (k - 1) \<le> unat x"
  proof (cases "k = 0")
    case False
    then have "k - 1 < k" by simp
    then have "\<not> unat x < 2 ^ (k - 1)" unfolding k_def by (rule not_less_Least)
    then show ?thesis by simp
  qed simp
  obtain y where y: "NextPowerOfTwo n = y + 1" "\<And>i. bit y i \<longleftrightarrow> (\<exists>j\<ge>i. bit (n - 1) j)"
    using NextPowerOfTwo_bits [OF assms] by blast
  have "y = mask k" using y(2) lt lo unfolding x_def by (rule upper_bits_mask)
  then have "NextPowerOfTwo n = 2 ^ k" using y(1) by (simp add: mask_eq_decr_exp)
  then show ?thesis using k64 lt lo ux by auto
qed


lemma round_up_pow2_exp:
  assumes "i \<le> k" "n \<le> 2 ^ k" "k = 0 \<or> 2 ^ (k - 1) < n"
  shows "round_up_pow2 (2 ^ i) n = 2 ^ k"
  using assms
proof (induction "k - i" arbitrary: i)
  case 0
  then have "i = k" by simp
  then show ?case using 0 by (subst round_up_pow2.simps) simp
next
  case (Suc d)
  then have ik: "i < k" by simp
  then have "(2::nat) ^ i \<le> 2 ^ (k - 1)" by (intro power_increasing) simp_all
  moreover have "2 ^ (k - 1) < n" using Suc.prems(3) ik by auto
  ultimately have "\<not> n \<le> 2 ^ i" by linarith
  moreover have "round_up_pow2 (2 ^ Suc i) n = 2 ^ k"
    using Suc.hyps(2) ik Suc.prems by (intro Suc.hyps(1)) simp_all
  ultimately show ?case by (subst round_up_pow2.simps) simp
qed

lemma rounded_capacity_least:
  "\<exists>k. rounded_capacity n = 2 ^ k \<and> n \<le> 2 ^ k \<and> (\<forall>j. n \<le> 2 ^ j \<longrightarrow> k \<le> j)"
proof -
  define k where "k = (LEAST k. n \<le> 2 ^ k)"
  have ex: "n \<le> 2 ^ n" by simp
  have le: "n \<le> 2 ^ k" unfolding k_def using ex by (rule LeastI [of "\<lambda>k. n \<le> 2 ^ k"])
  have least: "k \<le> j" if "n \<le> 2 ^ j" for j unfolding k_def using that by (rule Least_le)
  have lo: "k = 0 \<or> 2 ^ (k - 1) < n"
  proof (cases "k = 0")
    case False
    have "\<not> n \<le> 2 ^ (k - 1)" using least [of "k - 1"] False by auto
    then show ?thesis by simp
  qed simp
  have "rounded_capacity n = 2 ^ k"
    unfolding rounded_capacity_def using round_up_pow2_exp [of 0 k n] le lo by simp
  then show ?thesis using le least by blast
qed

lemma NextPowerOfTwo_rounded:
  assumes "unat n \<le> 2 ^ 63"
  shows "\<exists>k<64. NextPowerOfTwo n = 2 ^ k \<and> rounded_capacity (unat n) = 2 ^ k"
proof (cases "n = 0")
  case True
  have "rounded_capacity 0 = 1"
    unfolding rounded_capacity_def by (subst round_up_pow2.simps) simp
  then show ?thesis using True by (intro exI [of _ 0]) (simp add: NextPowerOfTwo_def)
next
  case False
  then obtain k where k: "k \<le> 64" "NextPowerOfTwo n = 2 ^ k" "unat n \<le> 2 ^ k"
      "k = 0 \<or> 2 ^ (k - 1) < unat n"
    using NextPowerOfTwo_exp by blast
  have "k \<noteq> 64" using k(4) assms by auto
  then have "k < 64" using k(1) by simp
  moreover have "rounded_capacity (unat n) = 2 ^ k"
    unfolding rounded_capacity_def using round_up_pow2_exp [of 0 k "unat n"] k(3,4) by simp
  ultimately show ?thesis using k(2) by blast
qed

lemma NextPowerOfTwo_overflow:
  assumes "2 ^ 63 < unat n"
  shows "NextPowerOfTwo n = 0"
proof -
  have "n \<noteq> 0" using assms by auto
  then obtain k where k: "k \<le> 64" "NextPowerOfTwo n = 2 ^ k" "unat n \<le> 2 ^ k"
    using NextPowerOfTwo_exp by blast
  have "(2::nat) ^ 63 < 2 ^ k" using assms k(3) by linarith
  then have "63 < k" by (simp only: power_strict_increasing_iff) 
  then have "k = 64" using k(1) by simp
  then show ?thesis using k(2) by simp
qed

subsection \<open>Indices into the storage\<close>

lemma unat_pow64: "k < 64 \<Longrightarrow> unat ((2::size_t) ^ k) = 2 ^ k"
proof -
  assume k: "k < 64"
  have "(2::size_t) ^ k = word_of_nat (2 ^ k)" by simp
  moreover have "(2::nat) ^ k < 2 ^ 64" using k by (intro power_strict_increasing) simp_all
  ultimately show ?thesis by (simp only: unat_of_nat) simp
qed

lemma unat_and_mask_pow:
  fixes w :: size_t
  shows "unat (w AND (2 ^ k - 1)) = unat w mod 2 ^ k"
proof -
  have "unat (w AND (2 ^ k - 1)) = unat (take_bit k w)"
    by (simp only: take_bit_eq_mask mask_eq_decr_exp)
  also have "\<dots> = take_bit k (unat w)" by (rule unsigned_take_bit_eq)
  also have "\<dots> = unat w mod 2 ^ k" by (rule take_bit_eq_mod)
  finally show ?thesis .
qed

lemma mod_mod_pow64:
  fixes a :: nat
  assumes "k < 64"
  shows "a mod 2 ^ 64 mod 2 ^ k = a mod 2 ^ k"
proof -
  have "(2::nat) ^ k dvd 2 ^ 64" using assms by (intro le_imp_power_dvd) simp
  then show ?thesis by (rule mod_mod_cancel)
qed

lemma ring_index:
  fixes t :: size_t
  assumes "k < 64"
  shows "unat ((t + word_of_nat j) AND (2 ^ k - 1)) = (unat t + j) mod 2 ^ k"
proof -
  have "unat (t + word_of_nat j) = (unat t + j mod 2 ^ 64) mod 2 ^ 64"
    by (simp only: unat_word_ariths unat_of_nat) simp
  also have "\<dots> = (unat t + j) mod 2 ^ 64" by (simp only: mod_add_right_eq)
  finally show ?thesis using assms by (simp only: unat_and_mask_pow mod_mod_pow64)
qed

lemma ring_head_index:
  fixes h t :: size_t
  assumes "k < 64"
  shows "unat (h AND (2 ^ k - 1)) = (unat t + unat (h - t)) mod 2 ^ k"
proof -
  have "h = t + word_of_nat (unat (h - t))" by simp
  then show ?thesis using ring_index [OF assms, of t "unat (h - t)"] by simp
qed

lemma unat_min: "unat (min a b) = min (unat a) (unat b)"
  by (simp add: min_def word_le_nat_alt)

subsection \<open>Write and Read on the queue\<close>

lemma ring_contents_eq:
  assumes "ring_inv k rb"
  shows "ring_contents rb =
    map (\<lambda>i. m_buffer rb ! ((unat (m_tail rb) + i) mod 2 ^ k)) [0..<unat (m_head rb - m_tail rb)]"
  using assms by (simp add: ring_contents_def ring_inv_def ring_index)

lemma ring_inv_Available:
  assumes "ring_inv k rb"
  shows "unat (Available rb) = 2 ^ k - 1 - unat (m_head rb - m_tail rb)"
proof -
  have k: "k < 64" and cap: "m_capacity rb = 2 ^ k" and sz: "unat (m_head rb - m_tail rb) < 2 ^ k"
    using assms by (simp_all add: ring_inv_def)
  have c1: "unat (m_capacity rb - 1) = 2 ^ k - 1"
    using k cap by (simp add: unat_minus_one unat_pow64)
  have "m_head rb - m_tail rb \<le> m_capacity rb - 1"
    using sz c1 by (simp add: word_le_nat_alt)
  then show ?thesis
    using c1 by (simp add: Available_def AvailableToWrite_def unat_sub)
qed

lemma Write_correct:
  assumes inv: "ring_inv k rb"
  shows "ring_inv k (fst (Write rb data))
       \<and> snd (Write rb data) = min (word_of_nat (length data)) (Available rb)
       \<and> ring_contents (fst (Write rb data)) = ring_contents rb @ take (unat (snd (Write rb data))) data"
proof -
  define C :: nat where "C = 2 ^ k"
  define h where "h = m_head rb"
  define t where "t = m_tail rb"
  define buf where "buf = m_buffer rb"
  define sz where "sz = unat (h - t)"
  have k: "k < 64" and cap: "m_capacity rb = 2 ^ k" and msk: "m_mask rb = 2 ^ k - 1"
    and len: "length buf = C" and szC: "sz < C"
    using inv by (simp_all add: ring_inv_def C_def buf_def sz_def h_def t_def)
  have C63: "C \<le> 2 ^ 63" unfolding C_def using k by (intro power_increasing) simp_all
  define toWrite where "toWrite = min (word_of_nat (length data)) (Available rb)"
  define n where "n = unat toWrite"
  have av: "unat (Available rb) = C - 1 - sz"
    using ring_inv_Available [OF inv] by (simp add: C_def sz_def h_def t_def)
  have n_av: "n \<le> C - 1 - sz" unfolding n_def toWrite_def by (simp add: unat_min av)
  have "unat (word_of_nat (length data) :: size_t) \<le> length data"
    by (simp add: unat_of_nat)
  then have n_len: "n \<le> length data" unfolding n_def toWrite_def by (simp add: unat_min)
  have nC: "n < C" using n_av szC by arith
  show ?thesis
  proof (cases "toWrite = 0")
    case True
    then have "Write rb data = (rb, 0)"
      by (simp add: Write_def Let_def toWrite_def Available_def)
    then show ?thesis using inv True by (simp add: toWrite_def)
  next
    case False
    define headIndex where "headIndex = h AND m_mask rb"
    define firstChunk where "firstChunk = min toWrite (m_capacity rb - headIndex)"
    define secondChunk where "secondChunk = toWrite - firstChunk"
    define buf1 where "buf1 = memcpy_to buf (unat headIndex) (take (unat firstChunk) data)"
    define buf2 where "buf2 = (if secondChunk > 0
                         then memcpy_to buf1 0 (take (unat secondChunk) (drop (unat firstChunk) data))
                         else buf1)"
    have W: "Write rb data = (rb\<lparr>m_buffer := buf2, m_head := h + toWrite\<rparr>, toWrite)"
      using False
      by (simp add: Write_def Let_def toWrite_def Available_def h_def t_def buf_def headIndex_def
            firstChunk_def secondChunk_def buf1_def buf2_def)
    define hi where "hi = unat headIndex"
    have hi_eq: "hi = (unat t + sz) mod C"
      unfolding hi_def headIndex_def msk C_def sz_def using ring_head_index [OF k] by simp
    have hiC: "hi < C" unfolding hi_eq C_def by simp
    have capC: "unat (m_capacity rb) = C" using cap k by (simp add: unat_pow64 C_def)
    have "headIndex \<le> m_capacity rb" using hiC capC by (simp add: word_le_nat_alt hi_def)
    then have rest: "unat (m_capacity rb - headIndex) = C - hi"
      using capC by (simp add: unat_sub hi_def)
    define first where "first = unat firstChunk"
    have first_eq: "first = min n (C - hi)"
      unfolding first_def firstChunk_def by (simp add: unat_min rest n_def)
    have "firstChunk \<le> toWrite" unfolding firstChunk_def by simp
    then have second_eq: "unat secondChunk = n - first"
      unfolding secondChunk_def by (simp add: unat_sub n_def first_def)
    have sec_pos: "secondChunk > 0 \<longleftrightarrow> unat secondChunk > 0"
      by (simp add: word_less_nat_alt)
    have buf1': "buf1 = memcpy_to buf hi (take first data)"
      by (simp add: buf1_def hi_def first_def)
    have buf2': "buf2 = (if unat secondChunk > 0
                         then memcpy_to buf1 0 (take (unat secondChunk) (drop first data))
                         else buf1)"
      by (simp add: buf2_def sec_pos first_def)
    note ring = ring_write_nat [OF len hiC n_len nC first_eq second_eq buf1' buf2']
    have szn: "unat ((h + toWrite) - t) = sz + n"
    proof -
      have e: "(h + toWrite) - t = (h - t) + toWrite" by simp
      have "unat (h - t) + unat toWrite < 2 ^ LENGTH(64)"
        using n_av szC C63 by (simp add: sz_def [symmetric] n_def [symmetric])
      then have "unat ((h - t) + toWrite) = unat (h - t) + unat toWrite"
        by (rule unat_add_lem [THEN iffD1])
      then show ?thesis unfolding e by (simp add: sz_def n_def)
    qed
    let ?rb' = "rb\<lparr>m_buffer := buf2, m_head := h + toWrite\<rparr>"
    have inv': "ring_inv k ?rb'"
      using k cap msk ring(1) szn n_av szC
      by (simp add: ring_inv_def C_def t_def)
    have old: "ring_contents rb = map (\<lambda>i. buf ! ((unat t + i) mod C)) [0..<sz]"
      using ring_contents_eq [OF inv] by (simp add: buf_def t_def C_def sz_def h_def)
    have new: "ring_contents ?rb' = map (\<lambda>i. buf2 ! ((unat t + i) mod C)) [0..<sz + n]"
      using ring_contents_eq [OF inv'] szn by (simp add: t_def C_def)
    have "ring_contents ?rb' = ring_contents rb @ take n data"
    proof (rule nth_equalityI)
      show "length (ring_contents ?rb') = length (ring_contents rb @ take n data)"
        using n_len by (simp add: old new)
      fix i
      assume "i < length (ring_contents ?rb')"
      then have i: "i < sz + n" by (simp add: new)
      show "ring_contents ?rb' ! i = (ring_contents rb @ take n data) ! i"
      proof (cases "i < sz")
        case True
        have "\<forall>j<n. (unat t + i) mod C \<noteq> (hi + j) mod C"
        proof (intro allI impI notI)
          fix j
          assume j: "j < n" and eq: "(unat t + i) mod C = (hi + j) mod C"
          have "(hi + j) mod C = (unat t + sz + j) mod C"
            unfolding hi_eq by (simp add: mod_add_left_eq)
          with eq have "(unat t + i) mod C = (unat t + sz + j) mod C" by simp
          moreover have "unat t + i \<le> unat t + sz + j" using True by simp
          moreover have "unat t + sz + j - (unat t + i) < C" using True j n_av szC by arith
          ultimately have "unat t + i = unat t + sz + j" by (rule_tac mod_inj_window)
          then show False using True by simp
        qed
        moreover have "(unat t + i) mod C < C" using szC by simp
        ultimately have "buf2 ! ((unat t + i) mod C) = buf ! ((unat t + i) mod C)"
          by (rule_tac ring(3))
        then show ?thesis using True i by (simp add: old new nth_append)
      next
        case False
        then have j: "i - sz < n" using i by arith
        have "(unat t + i) mod C = (hi + (i - sz)) mod C"
        proof -
          have "(hi + (i - sz)) mod C = (unat t + sz + (i - sz)) mod C"
            unfolding hi_eq by (simp add: mod_add_left_eq)
          then show ?thesis using False by simp
        qed
        then have "buf2 ! ((unat t + i) mod C) = data ! (i - sz)"
          using ring(2) [OF j] by simp
        then show ?thesis using False i j by (simp add: old new nth_append)
      qed
    qed
    then show ?thesis using inv' W by (simp add: toWrite_def n_def)
  qed
qed


lemma map_shift_upt: "map (\<lambda>i. f (r + i)) [0..<sz - r] = map f [r..<sz]"
  by (rule nth_equalityI) auto

lemma Read_correct:
  assumes inv: "ring_inv k rb"
  shows "ring_inv k (fst (Read rb maxLength))
       \<and> snd (Read rb maxLength) = take (unat maxLength) (ring_contents rb)
       \<and> Peek rb maxLength = take (unat maxLength) (ring_contents rb)
       \<and> ring_contents (fst (Read rb maxLength)) = drop (unat maxLength) (ring_contents rb)"
proof -
  define C :: nat where "C = 2 ^ k"
  define h where "h = m_head rb"
  define t where "t = m_tail rb"
  define buf where "buf = m_buffer rb"
  define sz where "sz = unat (h - t)"
  have k: "k < 64" and cap: "m_capacity rb = 2 ^ k" and msk: "m_mask rb = 2 ^ k - 1"
    and len: "length buf = C" and szC: "sz < C"
    using inv by (simp_all add: ring_inv_def C_def buf_def sz_def h_def t_def)
  define toRead where "toRead = min maxLength (h - t)"
  define r where "r = unat toRead"
  have r_eq: "r = min (unat maxLength) sz" unfolding r_def toRead_def sz_def by (simp add: unat_min)
  have old: "ring_contents rb = map (\<lambda>i. buf ! ((unat t + i) mod C)) [0..<sz]"
    using ring_contents_eq [OF inv] by (simp add: buf_def t_def C_def sz_def h_def)
  have lenc: "length (ring_contents rb) = sz" by (simp add: old)
  have tk: "take (unat maxLength) (ring_contents rb) = take r (ring_contents rb)"
    using lenc by (simp add: r_eq min_def)
  have dr: "drop (unat maxLength) (ring_contents rb) = drop r (ring_contents rb)"
    using lenc by (simp add: r_eq min_def)
  show ?thesis
  proof (cases "toRead = 0")
    case True
    then have "Read rb maxLength = (rb, [])" "Peek rb maxLength = []"
      by (simp_all add: Read_def Peek_def Let_def toRead_def AvailableToRead_def h_def t_def)
    moreover have "r = 0" using True by (simp add: r_def)
    ultimately show ?thesis using inv by (simp add: tk dr)
  next
    case False
    define tailIndex where "tailIndex = t AND m_mask rb"
    define firstChunk where "firstChunk = min toRead (m_capacity rb - tailIndex)"
    define secondChunk where "secondChunk = toRead - firstChunk"
    define out where "out = memcpy_from buf (unat tailIndex) (unat firstChunk)
                       @ (if secondChunk > 0 then memcpy_from buf 0 (unat secondChunk) else [])"
    have R: "Read rb maxLength = (rb\<lparr>m_tail := t + toRead\<rparr>, out)" "Peek rb maxLength = out"
      using False
      by (simp_all add: Read_def Peek_def Let_def toRead_def AvailableToRead_def h_def t_def buf_def
            tailIndex_def firstChunk_def secondChunk_def out_def)
    define ti where "ti = unat tailIndex"
    have ti_eq: "ti = unat t mod C"
      unfolding ti_def tailIndex_def msk C_def by (rule unat_and_mask_pow)
    have tiC: "ti < C" unfolding ti_eq C_def by simp
    have capC: "unat (m_capacity rb) = C" using cap k by (simp add: unat_pow64 C_def)
    have "tailIndex \<le> m_capacity rb" using tiC capC by (simp add: word_le_nat_alt ti_def)
    then have rest: "unat (m_capacity rb - tailIndex) = C - ti"
      using capC by (simp add: unat_sub ti_def)
    have first_eq: "unat firstChunk = min r (C - ti)"
      unfolding firstChunk_def by (simp add: unat_min rest r_def)
    have "firstChunk \<le> toRead" unfolding firstChunk_def by simp
    then have second_eq: "unat secondChunk = r - unat firstChunk"
      unfolding secondChunk_def by (simp add: unat_sub r_def)
    have sec_pos: "secondChunk > 0 \<longleftrightarrow> unat secondChunk > 0"
      by (simp add: word_less_nat_alt)
    have rC: "r \<le> C" using r_eq szC by simp
    have "out = map (\<lambda>i. buf ! ((ti + i) mod C)) [0..<r]"
      unfolding out_def sec_pos ti_def [symmetric]
      using ring_read_nat [OF len tiC rC first_eq second_eq] by simp
    also have "\<dots> = map (\<lambda>i. buf ! ((unat t + i) mod C)) [0..<r]"
      unfolding ti_eq by (simp add: mod_add_left_eq)
    also have "\<dots> = take r (ring_contents rb)"
      using r_eq by (simp add: old take_map min_def)
    finally have out_eq: "out = take r (ring_contents rb)" .
    have "toRead \<le> h - t" unfolding toRead_def by simp
    then have sz': "unat (h - (t + toRead)) = sz - r"
      by (simp add: diff_diff_eq [symmetric] unat_sub sz_def r_def)
    let ?rb' = "rb\<lparr>m_tail := t + toRead\<rparr>"
    have inv': "ring_inv k ?rb'"
      using k cap msk len sz' szC by (simp add: ring_inv_def C_def h_def buf_def)
    have "ring_contents ?rb' = map (\<lambda>i. buf ! unat ((t + toRead + word_of_nat i) AND (2 ^ k - 1))) [0..<sz - r]"
      using sz' by (simp add: ring_contents_def msk buf_def h_def)
    also have "\<dots> = map (\<lambda>i. buf ! ((unat t + (r + i)) mod C)) [0..<sz - r]"
    proof -
      have "t + toRead + word_of_nat i = t + word_of_nat (r + i)" for i
        by (simp add: r_def)
      then have "unat ((t + toRead + word_of_nat i) AND (2 ^ k - 1)) = (unat t + (r + i)) mod C" for i
        using ring_index [OF k, of t "r + i"] by (simp only: C_def)
      then show ?thesis by simp
    qed
    also have "\<dots> = drop r (ring_contents rb)"
      unfolding old by (simp add: drop_map map_shift_upt [of "\<lambda>i. buf ! ((unat t + i) mod C)"])
    finally have "ring_contents ?rb' = drop r (ring_contents rb)" .
    then show ?thesis using inv' R out_eq by (simp add: tk dr)
  qed
qed

subsection \<open>The invariant over sequences of operations\<close>

lemma Skip_eq_Read: "fst (Skip rb count) = fst (Read rb count)"
  by (simp add: Skip_def Read_def Let_def word_greater_zero_iff)

lemma Clear_inv: "ring_inv k rb \<Longrightarrow> ring_inv k (Clear rb)"
  by (simp add: ring_inv_def Clear_def)

lemma RingBuffer_new_inv:
  assumes "unat n \<le> 2 ^ 63"
  shows "\<exists>k. ring_inv k (RingBuffer_new n) \<and> rounded_capacity (unat n) = 2 ^ k"
proof -
  obtain k where k: "k < 64" "NextPowerOfTwo n = 2 ^ k" "rounded_capacity (unat n) = 2 ^ k"
    using NextPowerOfTwo_rounded [OF assms] by blast
  have "ring_inv k (RingBuffer_new n)"
    using k(1,2) by (simp add: ring_inv_def RingBuffer_new_def Let_def unat_pow64)
  then show ?thesis using k(3) by blast
qed

lemma apply_op_inv: "ring_inv k rb \<Longrightarrow> ring_inv k (apply_op rb op)"
  by (cases op) (simp_all add: Write_correct Read_correct Skip_eq_Read Clear_inv)

lemma apply_ops_inv: "ring_inv k rb \<Longrightarrow> ring_inv k (apply_ops rb ops)"
  unfolding apply_ops_def by (induction ops arbitrary: rb) (simp_all add: apply_op_inv)

lemma ring_inv_sum:
  assumes "ring_inv k rb"
  shows "Size rb + Available rb + 1 = 2 ^ k" and "unat (Size rb) + unat (Available rb) + 1 = 2 ^ k"
proof -
  have cap: "m_capacity rb = 2 ^ k" and sz: "unat (m_head rb - m_tail rb) < 2 ^ k"
    using assms by (simp_all add: ring_inv_def)
  show "Size rb + Available rb + 1 = 2 ^ k"
    by (simp add: Size_def Available_def AvailableToRead_def AvailableToWrite_def cap)
  show "unat (Size rb) + unat (Available rb) + 1 = 2 ^ k"
    using ring_inv_Available [OF assms] sz by (simp add: Size_def AvailableToRead_def)
qed

lemma apply_op_capacity: "m_capacity (apply_op rb op) = m_capacity rb"
  by (cases op) (simp_all add: Write_def Read_def Skip_def Clear_def Let_def)

lemma apply_ops_capacity: "m_capacity (apply_ops rb ops) = m_capacity rb"
  unfolding apply_ops_def by (induction ops arbitrary: rb) (simp_all add: apply_op_capacity)

lemma capacity_zero_sum:
  assumes "m_capacity rb = 0"
  shows "Size rb + Available rb + 1 = 0" and "unat (Size rb) + unat (Available rb) + 1 = 2 ^ 64"
proof -
  let ?x = "m_head rb - m_tail rb"
  show "Size rb + Available rb + 1 = 0"
    by (simp add: Size_def Available_def AvailableToRead_def AvailableToWrite_def assms)
  have "?x \<le> - 1" by simp
  then have "unat (- 1 - ?x) = unat (- 1 :: size_t) - unat ?x" by (rule unat_sub)
  moreover have "unat (- 1 :: size_t) = 2 ^ 64 - 1" by (simp add: unsigned_minus_1_eq_mask mask_eq_exp_minus_1)
  moreover have "unat ?x < 2 ^ 64" using unsigned_less [of ?x, where ?'a = nat] by simp
  ultimately show "unat (Size rb) + unat (Available rb) + 1 = 2 ^ 64"
    by (simp add: Size_def Available_def AvailableToRead_def AvailableToWrite_def assms)
qed

lemma rounded_capacity_overflow:
  fixes n :: size_t
  assumes "2 ^ 63 < unat n"
  shows "rounded_capacity (unat n) = 2 ^ 64"
proof -
  have "unat n < 2 ^ 64" using unsigned_less [of n, where ?'a = nat] by simp
  then have "unat n \<le> 2 ^ 64" by simp
  then show ?thesis
    unfolding rounded_capacity_def using round_up_pow2_exp [of 0 64 "unat n"] assms by simp
qed

text \<open>Claim C5. For every buffer constructed with any requested capacity, and after any
  sequence of write, read, peek, skip and clear operations, \<^verbatim>\<open>Size() + Available() + 1\<close>
  equals the requested capacity rounded up to a power of two: in \<^verbatim>\<open>size_t\<close> arithmetic,
  where the sum and the rounded capacity are both taken modulo \<open>2 ^ 64\<close>, and as a sum of
  natural numbers.\<close>

theorem size_plus_available:
  "Size (apply_ops (RingBuffer_new n) ops) + Available (apply_ops (RingBuffer_new n) ops) + 1
           = word_of_nat (rounded_capacity (unat n))
       \<and> unat (Size (apply_ops (RingBuffer_new n) ops))
           + unat (Available (apply_ops (RingBuffer_new n) ops)) + 1
           = rounded_capacity (unat n)"
proof (cases "unat n \<le> 2 ^ 63")
  case True
  obtain k where k: "ring_inv k (RingBuffer_new n)" "rounded_capacity (unat n) = 2 ^ k"
    using RingBuffer_new_inv [OF True] by blast
  have "ring_inv k (apply_ops (RingBuffer_new n) ops)" using k(1) by (rule apply_ops_inv)
  then show ?thesis using ring_inv_sum k(2) by simp
next
  case False
  then have big: "2 ^ 63 < unat n" by simp
  have "m_capacity (RingBuffer_new n) = 0"
    using NextPowerOfTwo_overflow [OF big] by (simp add: RingBuffer_new_def Let_def)
  then have z: "m_capacity (apply_ops (RingBuffer_new n) ops) = 0"
    by (simp add: apply_ops_capacity)
  have "(word_of_nat (2 ^ 64) :: size_t) = 0" by simp
  then show ?thesis
    using capacity_zero_sum [OF z] rounded_capacity_overflow [OF big] by simp
qed


text \<open>A request of 5 bytes gives a capacity of 8; the sum is 8 after seven operations.\<close>

theorem size_plus_available_witness:
  "Size (apply_ops (RingBuffer_new 5) [OpWrite [1, 2, 3], OpRead 2, OpWrite [4, 5, 6, 7, 8, 9, 10], OpPeek 3, OpSkip 1, OpClear, OpWrite [11]])
   + Available (apply_ops (RingBuffer_new 5) [OpWrite [1, 2, 3], OpRead 2, OpWrite [4, 5, 6, 7, 8, 9, 10], OpPeek 3, OpSkip 1, OpClear, OpWrite [11]]) + 1 = 8"
  using size_plus_available [of 5 "[OpWrite [1, 2, 3], OpRead 2, OpWrite [4, 5, 6, 7, 8, 9, 10], OpPeek 3, OpSkip 1, OpClear, OpWrite [11]]"]
  by (simp add: rounded_capacity_def round_up_pow2.simps)

subsection \<open>First in, first out\<close>

lemma run_calls_contents:
  assumes "ring_inv k rb" "writes_fit rb calls" "run_calls rb calls = (rb', written, readout)"
  shows "ring_inv k rb' \<and> ring_contents rb @ written = readout @ ring_contents rb'"
  using assms
proof (induction calls arbitrary: rb written readout)
  case Nil
  then show ?case by simp
next
  case (Cons c calls)
  show ?case
  proof (cases c)
    case (CallWrite d)
    define rb1 where "rb1 = fst (Write rb d)"
    obtain w' where run: "run_calls rb1 calls = (rb', w', readout)" and w: "written = d @ w'"
      using Cons.prems(3) CallWrite by (auto simp: rb1_def split: prod.splits)
    have fit: "length d \<le> unat (Available rb)" and fits: "writes_fit rb1 calls"
      using Cons.prems(2) CallWrite by (simp_all add: rb1_def)
    have "unat (Available rb) < 2 ^ 64" using unsigned_less [of "Available rb", where ?'a = nat] by simp
    then have "length d < 2 ^ 64" using fit by linarith
    then have ud: "unat (word_of_nat (length d) :: size_t) = length d" by (simp add: unat_of_nat)
    then have "(word_of_nat (length d) :: size_t) \<le> Available rb" using fit by (simp add: word_le_nat_alt)
    then have "snd (Write rb d) = word_of_nat (length d)"
      using Write_correct [OF Cons.prems(1), of d] by (simp add: min_def)
    then have c1: "ring_contents rb1 = ring_contents rb @ d" and inv1: "ring_inv k rb1"
      using Write_correct [OF Cons.prems(1), of d] ud by (simp_all add: rb1_def)
    from Cons.IH [OF inv1 fits run] show ?thesis by (simp add: c1 w)
  next
    case (CallRead m)
    define rb1 where "rb1 = fst (Read rb m)"
    define out where "out = snd (Read rb m)"
    obtain r' where run: "run_calls rb1 calls = (rb', written, r')" and r: "readout = out @ r'"
      using Cons.prems(3) CallRead by (auto simp: rb1_def out_def split: prod.splits)
    have fits: "writes_fit rb1 calls" using Cons.prems(2) CallRead by (simp add: rb1_def)
    have inv1: "ring_inv k rb1" and o: "out = take (unat m) (ring_contents rb)"
      and c1: "ring_contents rb1 = drop (unat m) (ring_contents rb)"
      using Read_correct [OF Cons.prems(1), of m] by (simp_all add: rb1_def out_def)
    have "ring_contents rb = out @ ring_contents rb1" by (simp add: o c1)
    with Cons.IH [OF inv1 fits run] show ?thesis by (simp add: r)
  qed
qed

text \<open>For a buffer constructed with a requested capacity of at most \<open>2 ^ 63\<close> and every
  sequence of interleaved \<^verbatim>\<open>Write\<close> and \<^verbatim>\<open>Read\<close> calls in which no write exceeds the free
  capacity: the bytes returned by the reads, concatenated, are a prefix of the bytes
  submitted to the writes, concatenated; when the buffer is empty at the end the two are
  equal, and reading the \<^verbatim>\<open>Size()\<close> bytes that remain completes the read bytes to the
  written ones.\<close>

theorem ring_fifo:
  assumes "unat n \<le> 2 ^ 63" and "writes_fit (RingBuffer_new n) calls"
    and "run_calls (RingBuffer_new n) calls = (rb', written, readout)"
  shows "prefix readout written
       \<and> (Size rb' = 0 \<longrightarrow> readout = written)
       \<and> readout @ snd (Read rb' (Size rb')) = written"
proof -
  obtain k where k: "ring_inv k (RingBuffer_new n)"
    using RingBuffer_new_inv [OF assms(1)] by blast
  have "ring_contents (RingBuffer_new n) = []"
    by (simp add: ring_contents_def RingBuffer_new_def Let_def)
  with run_calls_contents [OF k assms(2,3)]
  have inv: "ring_inv k rb'" and w: "written = readout @ ring_contents rb'" by simp_all
  have "snd (Read rb' (Size rb')) = ring_contents rb'"
    using Read_correct [OF inv, of "Size rb'"]
    by (simp add: Size_def AvailableToRead_def ring_contents_def)
  moreover have "ring_contents rb' = []" if "Size rb' = 0"
    using that by (simp add: Size_def AvailableToRead_def ring_contents_def)
  ultimately show ?thesis using w by simp
qed

text \<open>On a buffer of capacity 4 the second write wraps around the end of the storage.\<close>

theorem ring_fifo_witness:
  "writes_fit (RingBuffer_new 4) [CallWrite [1, 2, 3], CallRead 2, CallWrite [4, 5], CallRead 2]
 \<and> snd (run_calls (RingBuffer_new 4) [CallWrite [1, 2, 3], CallRead 2, CallWrite [4, 5], CallRead 2])
     = ([1, 2, 3, 4, 5], [1, 2, 3, 4])
 \<and> prefix [1, 2, 3, 4 :: byte] [1, 2, 3, 4, 5]
 \<and> [1, 2, 3, 4] @ snd (Read \<lparr>m_capacity = 4, m_mask = 3, m_buffer = [5, 2, 3, 4], m_head = 5, m_tail = 4\<rparr> 1)
     = [1, 2, 3, 4, 5]"
proof -
  let ?cs = "[CallWrite [1, 2, 3], CallRead 2, CallWrite [4, 5], CallRead 2]"
  let ?rb = "\<lparr>m_capacity = 4, m_mask = 3, m_buffer = [5, 2, 3, 4], m_head = 5, m_tail = 4\<rparr>"
  have run: "run_calls (RingBuffer_new 4) ?cs = (?rb, [1, 2, 3, 4, 5], [1, 2, 3, 4])"
    by code_simp
  have fit: "writes_fit (RingBuffer_new 4) ?cs"
    by code_simp
  have n: "unat (4 :: size_t) \<le> 2 ^ 63" by simp
  have sz: "Size ?rb = 1" by (simp add: Size_def AvailableToRead_def)
  show ?thesis using ring_fifo [OF n fit run] fit run sz by simp
qed

text \<open>On a buffer that satisfies the invariant, as every buffer built from a request of at
  most \<open>2 ^ 63\<close> does, both copies of every \<^verbatim>\<open>Write\<close> stay inside the storage.\<close>

lemma Write_in_bounds_inv:
  assumes inv: "ring_inv k rb"
  shows "Write_in_bounds rb data"
proof -
  define C :: nat where "C = 2 ^ k"
  define h where "h = m_head rb"
  define t where "t = m_tail rb"
  define sz where "sz = unat (h - t)"
  have k: "k < 64" and cap: "m_capacity rb = 2 ^ k" and msk: "m_mask rb = 2 ^ k - 1"
    and len: "length (m_buffer rb) = C" and szC: "sz < C"
    using inv by (simp_all add: ring_inv_def C_def sz_def h_def t_def)
  define toWrite where "toWrite = min (word_of_nat (length data)) (Available rb)"
  define n where "n = unat toWrite"
  have av: "unat (Available rb) = C - 1 - sz"
    using ring_inv_Available [OF inv] by (simp add: C_def sz_def h_def t_def)
  have n_av: "n \<le> C - 1 - sz" unfolding n_def toWrite_def by (simp add: unat_min av)
  have nC: "n < C" using n_av szC by arith
  define headIndex where "headIndex = h AND m_mask rb"
  define firstChunk where "firstChunk = min toWrite (m_capacity rb - headIndex)"
  define secondChunk where "secondChunk = toWrite - firstChunk"
  define hi where "hi = unat headIndex"
  have hi_eq: "hi = (unat t + sz) mod C"
    unfolding hi_def headIndex_def msk C_def sz_def using ring_head_index [OF k] by simp
  have hiC: "hi < C" unfolding hi_eq C_def by simp
  have capC: "unat (m_capacity rb) = C" using cap k by (simp add: unat_pow64 C_def)
  have "headIndex \<le> m_capacity rb" using hiC capC by (simp add: word_le_nat_alt hi_def)
  then have rest: "unat (m_capacity rb - headIndex) = C - hi"
    using capC by (simp add: unat_sub hi_def)
  have first_eq: "unat firstChunk = min n (C - hi)"
    unfolding firstChunk_def by (simp add: unat_min rest n_def)
  have "firstChunk \<le> toWrite" unfolding firstChunk_def by simp
  then have second_eq: "unat secondChunk = n - unat firstChunk"
    unfolding secondChunk_def by (simp add: unat_sub n_def)
  have b1: "memcpy_in_bounds (m_buffer rb) (unat headIndex) (unat firstChunk)"
    using first_eq hiC len by (simp add: memcpy_in_bounds_def hi_def [symmetric])
  have b2: "memcpy_in_bounds (m_buffer rb) 0 (unat secondChunk)"
    using second_eq nC len by (simp add: memcpy_in_bounds_def)
  show ?thesis
    using b1 b2
    by (simp add: Write_in_bounds_def Let_def Available_def toWrite_def h_def t_def
          headIndex_def firstChunk_def secondChunk_def)
qed

text \<open>Claim C4, at a requested capacity of \<open>2 ^ 63 + 1\<close>. \<^verbatim>\<open>NextPowerOfTwo\<close> wraps around to
  0: the buffer has a capacity of 0 and an empty storage, \<^verbatim>\<open>Available()\<close> is \<open>2 ^ 64 - 1\<close>, so
  a write of one byte does not exceed the free capacity; \<^verbatim>\<open>Write\<close> accepts the byte and copies
  it to \<^verbatim>\<open>&m_buffer[0]\<close>, outside the storage.\<close>

theorem ring_fifo_overflow:
  "m_capacity (RingBuffer_new (2 ^ 63 + 1)) = 0
 \<and> m_buffer (RingBuffer_new (2 ^ 63 + 1)) = []
 \<and> Available (RingBuffer_new (2 ^ 63 + 1)) = - 1
 \<and> writes_fit (RingBuffer_new (2 ^ 63 + 1)) [CallWrite [0x41]]
 \<and> snd (Write (RingBuffer_new (2 ^ 63 + 1)) [0x41]) = 1
 \<and> \<not> Write_in_bounds (RingBuffer_new (2 ^ 63 + 1)) [0x41]"
proof -
  have "(2::nat) ^ 63 < unat (2 ^ 63 + 1 :: size_t)" by simp
  then have "NextPowerOfTwo (2 ^ 63 + 1) = 0" by (rule NextPowerOfTwo_overflow)
  then have rb: "RingBuffer_new (2 ^ 63 + 1) =
      \<lparr>m_capacity = 0, m_mask = - 1, m_buffer = [], m_head = 0, m_tail = 0\<rparr>"
    by (simp add: RingBuffer_new_def Let_def)
  have m: "min (1 :: size_t) (- 1) = 1" by (simp add: min_def)
  have u: "unat (- 1 :: size_t) = 2 ^ 64 - 1"
    by (simp add: unsigned_minus_1_eq_mask mask_eq_exp_minus_1)
  show ?thesis
    unfolding rb
    by (simp add: Available_def AvailableToWrite_def Write_def Write_in_bounds_def Let_def m u
          memcpy_in_bounds_def memcpy_to_def)
qed

section \<open>Theorems: the session\<close>

subsection \<open>Scrollback pushes\<close>

lemma TerminalBuffer_new_scrollback:
  "TerminalBuffer_new cfg = Inr tb \<Longrightarrow>
     m_scrollback tb = [] \<and> m_maxScrollback tb = cfg_scrollbackLines cfg"
  by (auto simp: TerminalBuffer_new_def Let_def split: if_splits)

lemma Session_Start_running:
  assumes "Session_Start vterm_ok os_ok s0 config = (s, True)"
  shows "\<exists>tb vt pty. ses_buffer s = Some tb \<and> m_scrollback tb = []
           \<and> m_maxScrollback tb = sc_scrollbackLines config
           \<and> ses_vterm s = Some vt \<and> vt_scrollbackPushCallback vt = None
           \<and> vt_damageCallback vt = Some Session_OnVTermDamage
           \<and> ses_pty s = Some pty \<and> pty_running pty \<and> pty_hProcess pty
           \<and> pty_outputCallback pty = Some Session_OnPtyOutput
           \<and> pty_exitCallback pty = Some Session_OnPtyExit
           \<and> ses_outputBuffer s = Some (RingBuffer_new 65536)
           \<and> ses_state s = Running \<and> ses_exitCode s = ses_exitCode s0"
  using assms
  by (auto simp: Session_Start_def Let_def PtySession_Start_def PtySession_new_def
        VTermWrapper_new_def SetDamageCallback_def SetTermPropCallback_def
        TerminalBuffer_new_scrollback
      split: if_splits sum.splits prod.splits)

lemma store_cell_scrollback [simp]: "m_scrollback (store_cell tb row col c) = m_scrollback tb"
  by (simp add: store_cell_def)

lemma MarkDirty_scrollback [simp]: "m_scrollback (MarkDirty tb row) = m_scrollback tb"
  by (simp add: MarkDirty_def)








lemma Start_10x20: "Session_Start True True Session_new config_10x20 = (session_10x20, True)"
proof -
  have "\<exists>tb. TerminalBuffer_new \<lparr>cfg_rows = 10, cfg_cols = 20, cfg_scrollbackLines = 10000\<rparr> = Inr tb"
    by (simp add: TerminalBuffer_new_def Let_def)
  then have "snd (Session_Start True True Session_new config_10x20) = True"
    by (auto simp: Session_Start_def Let_def config_10x20_def Session_new_def PtySession_Start_def
          PtySession_new_def split: sum.splits prod.splits)
  then show ?thesis by (simp add: session_10x20_def prod_eq_iff)
qed




subsection \<open>PTY output into the ring buffer\<close>

lemma RingBuffer_65536_inv: "ring_inv 16 (RingBuffer_new 65536)"
proof -
  have "NextPowerOfTwo 65536 = 65536" by (simp add: NextPowerOfTwo_def Let_def)
  then show ?thesis by (simp add: ring_inv_def RingBuffer_new_def Let_def)
qed

lemma RingBuffer_65536_fresh:
  "ring_contents (RingBuffer_new 65536) = []" "Available (RingBuffer_new 65536) = 65535"
proof -
  have "NextPowerOfTwo 65536 = 65536" by (simp add: NextPowerOfTwo_def Let_def)
  then show "ring_contents (RingBuffer_new 65536) = []" "Available (RingBuffer_new 65536) = 65535"
    by (simp_all add: ring_contents_def RingBuffer_new_def Let_def Available_def AvailableToWrite_def)
qed

lemma OnPtyOutput_contents:
  assumes "ses_outputBuffer s = Some rb" "ring_inv k rb"
  shows "\<exists>rb'. ses_outputBuffer (OnPtyOutput s data) = Some rb' \<and> ring_inv k rb'
          \<and> ring_contents rb' = ring_contents rb @ take (unat (min (word_of_nat (length data)) (Available rb))) data"
  using assms Write_correct [OF assms(2), of data] by (simp add: OnPtyOutput_def)

lemma OnPtyOutput_full:
  assumes "ses_outputBuffer s = Some rb" "Available rb = 0"
  shows "OnPtyOutput s data = s"
  using assms by (simp add: OnPtyOutput_def Write_def Let_def Available_def)

text \<open>Claim C2 at a failing input. \<^verbatim>\<open>Session::OnPtyOutput\<close> calls \<^verbatim>\<open>Write\<close> once and ignores
  the number of bytes accepted. In a started session whose ring buffer nobody drains: after
  65535 bytes the buffer is full, and a further byte \<open>0x41\<close> leaves the session unchanged,
  so the byte is lost; of one chunk of 65536 bytes the buffer keeps the first 65535.\<close>

theorem OnPtyOutput_drops_bytes:
  "map_option ring_contents (ses_outputBuffer (OnPtyOutput session_10x20 (replicate 65535 0)))
     = Some (replicate 65535 0)
 \<and> OnPtyOutput (OnPtyOutput session_10x20 (replicate 65535 0)) [0x41]
     = OnPtyOutput session_10x20 (replicate 65535 0)
 \<and> map_option ring_contents (ses_outputBuffer (OnPtyOutput session_10x20 (replicate 65536 0x41)))
     = Some (replicate 65535 0x41)"
proof -
  from Session_Start_running [OF Start_10x20]
  have rb: "ses_outputBuffer session_10x20 = Some (RingBuffer_new 65536)" by auto
  have w: "(word_of_nat 65535 :: size_t) = 65535" "(word_of_nat 65536 :: size_t) = 65536" by simp_all
  from OnPtyOutput_contents [OF rb RingBuffer_65536_inv, of "replicate 65535 0"]
  obtain rb1 where rb1: "ses_outputBuffer (OnPtyOutput session_10x20 (replicate 65535 0)) = Some rb1"
    "ring_inv 16 rb1" "ring_contents rb1 = replicate 65535 0"
    by (auto simp: RingBuffer_65536_fresh w)
  have "length (ring_contents rb1) = 65535" by (simp add: rb1(3))
  then have "unat (m_head rb1 - m_tail rb1) = 65535" by (simp add: ring_contents_def)
  then have "unat (Available rb1) = 0" using ring_inv_Available [OF rb1(2)] by simp
  then have full: "Available rb1 = 0" by (simp add: unat_eq_0)
  from OnPtyOutput_contents [OF rb RingBuffer_65536_inv, of "replicate 65536 0x41"]
  have "map_option ring_contents (ses_outputBuffer (OnPtyOutput session_10x20 (replicate 65536 0x41)))
     = Some (replicate 65535 0x41)"
    by (auto simp: RingBuffer_65536_fresh w)
  then show ?thesis using rb1 OnPtyOutput_full [OF rb1(1) full] by simp
qed

subsection \<open>Read errors in the reader thread\<close>

lemma OnPtyOutput_fields [simp]:
  "ses_pty (OnPtyOutput s bytes) = ses_pty s" "ses_state (OnPtyOutput s bytes) = ses_state s"
  "ses_exitCode (OnPtyOutput s bytes) = ses_exitCode s"
  by (simp_all add: OnPtyOutput_def split: option.splits)

lemma call_output_fields [simp]:
  "ses_pty (call_output s bytes) = ses_pty s" "ses_state (call_output s bytes) = ses_state s"
  "ses_exitCode (call_output s bytes) = ses_exitCode s"
  by (simp_all add: call_output_def split: option.splits output_callback.splits)

lemma IoThreadProc_loop_failed:
  assumes "\<forall>c \<in> set chunks. c \<noteq> []"
  shows "\<exists>s1. IoThreadProc_loop s (map ReadFile_ok chunks @ ReadFile_failed err # rest) = Some s1
           \<and> ses_pty s1 = ses_pty s \<and> ses_state s1 = ses_state s \<and> ses_exitCode s1 = ses_exitCode s"
  using assms
proof (induction chunks arbitrary: s)
  case Nil
  then show ?case by simp
next
  case (Cons c chunks)
  show ?case
  proof (cases "pty_is_running s")
    case True
    from Cons.IH [of "call_output s c"] Cons.prems
    obtain s1 where "IoThreadProc_loop (call_output s c) (map ReadFile_ok chunks @ ReadFile_failed err # rest) = Some s1"
      "ses_pty s1 = ses_pty s" "ses_state s1 = ses_state s" "ses_exitCode s1 = ses_exitCode s"
      by auto
    then show ?thesis using True Cons.prems by simp
  next
    case False
    then show ?thesis by simp
  qed
qed

text \<open>Claim C3, amended. In a started session, when a blocking read of the reader thread
  fails, with whatever error code, after any number of successful non-empty reads, the
  loop ends and the thread returns with \<open>m_running\<close> cleared. The session becomes \<open>Exited\<close>
  exactly when \<^verbatim>\<open>GetExitCodeProcess\<close> succeeds with a code other than \<^verbatim>\<open>STILL_ACTIVE\<close>, and
  its exit code is then the exit code of the child process; otherwise the session stays
  \<open>Running\<close> and keeps its exit code. The error code of the read is not used.\<close>

theorem reader_error_exit:
  assumes "Session_Start vterm_ok os_ok s0 config = (s, True)"
    and "\<forall>c \<in> set chunks. c \<noteq> []"
  shows "\<exists>s'. IoThreadProc s (map ReadFile_ok chunks @ ReadFile_failed err # rest) exitQuery = Some s'
          \<and> \<not> pty_is_running s'
          \<and> (case exitQuery of
                None \<Rightarrow> ses_state s' = Running \<and> ses_exitCode s' = ses_exitCode s
              | Some exitCode \<Rightarrow>
                  if exitCode = STILL_ACTIVE then ses_state s' = Running \<and> ses_exitCode s' = ses_exitCode s
                  else ses_state s' = Exited \<and> ses_exitCode s' = exitCode)"
proof -
  from Session_Start_running [OF assms(1)]
  obtain pty where pty: "ses_pty s = Some pty" "pty_hProcess pty"
    "pty_exitCallback pty = Some Session_OnPtyExit" and st: "ses_state s = Running"
    by auto
  from IoThreadProc_loop_failed [OF assms(2), of s err rest]
  obtain s1 where s1: "IoThreadProc_loop s (map ReadFile_ok chunks @ ReadFile_failed err # rest) = Some s1"
    "ses_pty s1 = ses_pty s" "ses_state s1 = ses_state s" "ses_exitCode s1 = ses_exitCode s"
    by auto
  show ?thesis using s1 pty st
    by (auto simp: IoThreadProc_def IoThreadProc_exit_def OnPtyExit_def pty_is_running_def Let_def
        split: option.splits)
qed

text \<open>One chunk is read, the next read fails with \<^verbatim>\<open>ERROR_ACCESS_DENIED\<close>, and the child has
  exited with code 1.\<close>

theorem reader_error_exit_witness:
  "map_option ses_state
     (IoThreadProc session_10x20 [ReadFile_ok [0x41], ReadFile_failed ERROR_ACCESS_DENIED] (Some 1))
     = Some Exited
 \<and> map_option ses_exitCode
     (IoThreadProc session_10x20 [ReadFile_ok [0x41], ReadFile_failed ERROR_ACCESS_DENIED] (Some 1))
     = Some 1"
  using reader_error_exit [OF Start_10x20, of "[[0x41]]" ERROR_ACCESS_DENIED "[]" "Some 1"]
  by (auto simp: STILL_ACTIVE_def)

text \<open>The first read fails with \<^verbatim>\<open>ERROR_ACCESS_DENIED\<close> (5). With the child still running the
  session stays \<open>Running\<close> with exit code 0; with the child exited with code 0 the session
  becomes \<open>Exited\<close> with exit code 0. In neither case is the exit code 5.\<close>

theorem reader_error_exit_counterexample:
  "map_option ses_state (IoThreadProc session_10x20 [ReadFile_failed ERROR_ACCESS_DENIED] (Some STILL_ACTIVE))
     = Some Running
 \<and> map_option ses_exitCode (IoThreadProc session_10x20 [ReadFile_failed ERROR_ACCESS_DENIED] (Some STILL_ACTIVE))
     = Some 0
 \<and> map_option ses_state (IoThreadProc session_10x20 [ReadFile_failed ERROR_ACCESS_DENIED] (Some 0))
     = Some Exited
 \<and> map_option ses_exitCode (IoThreadProc session_10x20 [ReadFile_failed ERROR_ACCESS_DENIED] (Some 0))
     = Some 0
 \<and> ERROR_ACCESS_DENIED \<noteq> 0"
proof -
  from Session_Start_running [OF Start_10x20]
  obtain pty where pty: "ses_pty session_10x20 = Some pty" "pty_hProcess pty"
    "pty_exitCallback pty = Some Session_OnPtyExit" and st: "ses_state session_10x20 = Running"
    and ec: "ses_exitCode session_10x20 = 0"
    by (auto simp: Session_new_def)
  show ?thesis using pty st ec
    by (simp add: IoThreadProc_def IoThreadProc_exit_def OnPtyExit_def STILL_ACTIVE_def
        ERROR_ACCESS_DENIED_def)
qed

section \<open>Theorems: session persistence\<close>

subsection \<open>Searching a text for a needle that starts with a double quote\<close>

lemma find_sub_skip:
  "dq \<notin> set t \<Longrightarrow> find_sub (dq # n) (t @ r) = map_option (\<lambda>p. length t + p) (find_sub (dq # n) r)"
proof (induction t)
  case Nil
  then show ?case by (simp add: option.map_ident)
next
  case (Cons c t)
  then show ?case by (simp add: option.map_comp comp_def)
qed









lemma find_quote_free: "dq \<notin> set t \<Longrightarrow> find_sub [dq] t = None"
  using find_sub_skip [of t "[]" "[]"] by simp


subsection \<open>Tokens\<close>







subsection \<open>The two lookups through \<open>after_sub\<close>\<close>




subsection \<open>Decimal digits and \<open>atoi\<close>\<close>











































subsection \<open>The round trip through a session\<close>













end
